theory Spec2Isabelle
  imports Main "HOL-Library.Char_ord" "HOL-Library.List_Lexorder"
begin

section \<open>JavaScript strings and the string primitives the action uses\<close>

text \<open>
  A JavaScript string is a sequence of code units; the model takes \<^typ>\<open>string\<close>, the
  sequence of 8-bit code units. Every character the source names (brackets, parentheses,
  slash, dollar, digits, line feed, carriage return) is such a unit. In this range the
  class \<^verbatim>\<open>\s\<close> is tab, line feed, vertical tab, form feed, carriage return, space and
  no-break space, the line terminators that \<^verbatim>\<open>.\<close> refuses are line feed and carriage
  return, and \<^verbatim>\<open>\d\<close> is the ten ASCII digits.
\<close>

definition isDigit :: "char \<Rightarrow> bool" where
  "isDigit c = (c \<in> set ''0123456789'')"

definition isLineTerminator :: "char \<Rightarrow> bool" where
  "isLineTerminator c = (c = CHR 0x0A \<or> c = CHR 0x0D)"

definition isSpace :: "char \<Rightarrow> bool" where
  "isSpace c = (c \<in> set [CHR 0x09, CHR 0x0A, CHR 0x0B, CHR 0x0C, CHR 0x0D, CHR 0x20, CHR 0xA0])"

text \<open>\<^verbatim>\<open>s.startsWith(p)\<close>.\<close>

fun startsWith :: "string \<Rightarrow> string \<Rightarrow> bool" where
  "startsWith s [] = True"
| "startsWith [] (p # ps) = False"
| "startsWith (c # s) (p # ps) = (c = p \<and> startsWith s ps)"

text \<open>
  \<^verbatim>\<open>s.indexOf(p, start)\<close>: the least index from \<open>min start (length s)\<close> on at which
  \<open>p\<close> occurs; \<open>None\<close> stands for -1. \<open>indexOfFrom\<close> walks the suffix that starts at
  index \<open>i\<close>.
\<close>

fun indexOfFrom :: "string \<Rightarrow> string \<Rightarrow> nat \<Rightarrow> nat option" where
  "indexOfFrom [] p i = (if p = [] then Some i else None)"
| "indexOfFrom (c # s) p i = (if startsWith (c # s) p then Some i else indexOfFrom s p (Suc i))"

definition indexOf :: "string \<Rightarrow> string \<Rightarrow> nat \<Rightarrow> nat option" where
  "indexOf s p start = indexOfFrom (drop (min start (length s)) s) p (min start (length s))"

text \<open>\<^verbatim>\<open>s.includes(p)\<close>.\<close>

definition includes_str :: "string \<Rightarrow> string \<Rightarrow> bool" where
  "includes_str s p = (indexOf s p 0 \<noteq> None)"

text \<open>
  \<^verbatim>\<open>s.split(sep)\<close> for the one-unit separator and for the separator \<^verbatim>\<open>'\r\n'\<close>. The
  result is never empty: the empty string splits into one empty line. A unit that is
  not a separator goes in front of the first line of what the rest splits into.
\<close>

fun splitOn :: "char \<Rightarrow> string \<Rightarrow> string list" where
  "splitOn sep [] = [[]]"
| "splitOn sep (c # s) =
     (if c = sep then [] # splitOn sep s
      else (case splitOn sep s of l # ls \<Rightarrow> (c # l) # ls | [] \<Rightarrow> [[c]]))"

fun splitCRLF :: "string \<Rightarrow> string list" where
  "splitCRLF [] = [[]]"
| "splitCRLF [c] = [[c]]"
| "splitCRLF (c # d # s) =
     (if c = CHR 0x0D \<and> d = CHR 0x0A then [] # splitCRLF s
      else (case splitCRLF (d # s) of l # ls \<Rightarrow> (c # l) # ls | [] \<Rightarrow> [[c]]))"

text \<open>\<^verbatim>\<open>lines.join('\n')\<close>.\<close>

fun joinLines :: "string list \<Rightarrow> string" where
  "joinLines [] = []"
| "joinLines [l] = l"
| "joinLines (l # m # ls) = l @ CHR 0x0A # joinLines (m # ls)"

text \<open>
  \<^verbatim>\<open>[...new Set(xs)]\<close>: a Set keeps the order of first insertion, so the first occurrence
  of every element stays, in order.
\<close>

definition uniqueInOrder :: "'a list \<Rightarrow> 'a list" where
  "uniqueInOrder xs = rev (remdups (rev xs))"

section \<open>Regular expression pieces\<close>

text \<open>
  The regular expressions of the source are matched by a backtracking matcher: patterns
  are tried left to right, a greedy quantifier takes the longest run first and gives
  units back one at a time, a lazy one takes the shortest first, and an unanchored
  pattern is tried at every start index from the left. Each piece below takes the rest
  of the subject and returns what is left of it (or the capture) when it matches.
\<close>

text \<open>A literal.\<close>

fun lit :: "string \<Rightarrow> string \<Rightarrow> string option" where
  "lit [] s = Some s"
| "lit (p # ps) [] = None"
| "lit (p # ps) (c # s) = (if p = c then lit ps s else None)"

text \<open>An unescaped \<^verbatim>\<open>.\<close>: any unit but a line terminator.\<close>

definition dot :: "string \<Rightarrow> string option" where
  "dot s = (case s of [] \<Rightarrow> None | c # r \<Rightarrow> if isLineTerminator c then None else Some r)"

text \<open>
  \<^verbatim>\<open>\d+\<close> where a literal other than a digit, or the end of the pattern, follows: only
  the longest run of digits can match, since after a shorter one the next unit is a
  digit. \<open>skipDigits\<close> returns the rest, \<open>captureDigits\<close> the run.
\<close>

definition skipDigits :: "string \<Rightarrow> string option" where
  "skipDigits s = (if takeWhile isDigit s = [] then None else Some (dropWhile isDigit s))"

definition captureDigits :: "string \<Rightarrow> string option" where
  "captureDigits s = (if takeWhile isDigit s = [] then None else Some (takeWhile isDigit s))"

text \<open>
  \<^verbatim>\<open>(?:.*?)\<close> followed by the pattern \<open>k\<close>: \<open>k\<close> is tried first where the matcher
  stands, then after one more unit, and so on; a line terminator stops it.
\<close>

fun lazyAny :: "(string \<Rightarrow> 'a option) \<Rightarrow> string \<Rightarrow> 'a option" where
  "lazyAny k [] = k []"
| "lazyAny k (c # s) =
     (case k (c # s) of
        Some r \<Rightarrow> Some r
      | None \<Rightarrow> if isLineTerminator c then None else lazyAny k s)"

text \<open>An unanchored pattern \<open>f\<close>: the leftmost start index at which it matches.\<close>

fun search :: "(string \<Rightarrow> 'a option) \<Rightarrow> string \<Rightarrow> 'a option" where
  "search f [] = f []"
| "search f (c # s) = (case f (c # s) of Some r \<Rightarrow> Some r | None \<Rightarrow> search f s)"

text \<open>The first alternative that matches.\<close>

fun firstSome :: "'a option list \<Rightarrow> 'a option" where
  "firstSome [] = None"
| "firstSome (Some x # xs) = Some x"
| "firstSome (None # xs) = firstSome xs"

section \<open>getAsanaTaskGIDsFromText\<close>

text \<open>
  \<^verbatim>\<open>https:\/\/app.asana.com\<close> as the extractor writes it: the two dots are not escaped.
\<close>

definition asanaHost :: "string \<Rightarrow> string option" where
  "asanaHost s =
     Option.bind (Option.bind (Option.bind (Option.bind (lit ''https://app'' s) dot)
       (lit ''asana'')) dot) (lit ''com'')"

text \<open>
  First pattern,
  \<^verbatim>\<open>/https:\/\/app.asana.com(?:.*?)\/(?:task|item)\/(?<taskGID>\d+)/\<close>.
\<close>

definition taskOrItem :: "string \<Rightarrow> string option" where
  "taskOrItem s =
     (case Option.bind (lit ''/task/'' s) captureDigits of
        Some g \<Rightarrow> Some g
      | None \<Rightarrow> Option.bind (lit ''/item/'' s) captureDigits)"

definition matchTaskItem :: "string \<Rightarrow> string option" where
  "matchTaskItem line = search (\<lambda>s. Option.bind (asanaHost s) (lazyAny taskOrItem)) line"

text \<open>
  Second pattern,
  \<^verbatim>\<open>/https:\/\/app.asana.com(?:.*?)\/project\/(?:\d+)\/task\/(?<taskGID>\d+)/\<close>.
\<close>

definition projectTask :: "string \<Rightarrow> string option" where
  "projectTask s =
     Option.bind (Option.bind (Option.bind (lit ''/project/'' s) skipDigits) (lit ''/task/''))
       captureDigits"

definition matchProjectTask :: "string \<Rightarrow> string option" where
  "matchProjectTask line = search (\<lambda>s. Option.bind (asanaHost s) (lazyAny projectTask)) line"

text \<open>
  Third pattern,
  \<^verbatim>\<open>/https:\/\/app.asana.com\/\d+\/\d+\/project\/\d+\/task\/(?<taskGID>\d+)/\<close>.
\<close>

definition matchWorkspaceProjectTask :: "string \<Rightarrow> string option" where
  "matchWorkspaceProjectTask line =
     search (\<lambda>s.
       Option.bind (Option.bind (Option.bind (Option.bind (Option.bind (Option.bind
         (Option.bind (Option.bind (asanaHost s) (lit ''/'')) skipDigits) (lit ''/''))
           skipDigits) (lit ''/project/'')) skipDigits) (lit ''/task/'')) captureDigits) line"

text \<open>
  Fourth pattern, the old V0 format,
  \<^verbatim>\<open>/https:\/\/app.asana.com(?:\/(?:[0-9]+|board|search|inbox))+(?:\/(?<taskGID>[0-9]+))+/\<close>.

  \<open>gidSegments\<close> is the second group, which ends the pattern: every round takes a slash
  and the longest run of digits, rounds are repeated while they match, and the capture
  is that of the last round.
\<close>

function gidSegments :: "string \<Rightarrow> string option" where
  "gidSegments [] = None"
| "gidSegments (c # r) =
     (if c = CHR ''/'' \<and> takeWhile isDigit r \<noteq> [] then
        (case gidSegments (dropWhile isDigit r) of
           Some g \<Rightarrow> Some g
         | None \<Rightarrow> Some (takeWhile isDigit r))
      else None)"
  by pat_completeness auto
termination
  by (relation "measure length") (auto simp: less_Suc_eq_le length_dropWhile_le)

text \<open>
  \<open>segmentEnds r\<close> lists what can be left of \<open>r\<close> after one
  \<^verbatim>\<open>(?:[0-9]+|board|search|inbox)\<close>, in the order the matcher tries: the digits from the
  longest run down to one digit, then the three keywords.
\<close>

definition segmentEnds :: "string \<Rightarrow> string list" where
  "segmentEnds r =
     map (\<lambda>n. drop n r) (rev [1 ..< Suc (length (takeWhile isDigit r))])
     @ (if startsWith r ''board'' then [drop 5 r] else [])
     @ (if startsWith r ''search'' then [drop 6 r] else [])
     @ (if startsWith r ''inbox'' then [drop 5 r] else [])"

text \<open>
  \<open>pathSegments\<close> is the first group followed by the rest of the pattern: after a round
  the matcher first tries one more round and, when that fails, goes on to the second
  group; when both fail it backtracks into the round.
\<close>

function pathSegments :: "string \<Rightarrow> string option" where
  "pathSegments s =
     (case s of
        [] \<Rightarrow> None
      | c # r \<Rightarrow>
          if c = CHR ''/'' then
            firstSome (map (\<lambda>t. case pathSegments t of
                                    Some g \<Rightarrow> Some g
                                  | None \<Rightarrow> gidSegments t) (segmentEnds r))
          else None)"
  by pat_completeness auto
termination
proof (relation "measure length")
  show "wf (measure length)" by simp
next
  fix s :: string and c r t
  assume "s = c # r" and "t \<in> set (segmentEnds r)"
  then show "(t, s) \<in> measure length"
    by (auto simp: segmentEnds_def split: if_splits)
qed

definition matchV0 :: "string \<Rightarrow> string option" where
  "matchV0 line =
     (case search (\<lambda>s. Option.bind (asanaHost s) pathSegments) line of
        None \<Rightarrow> None
      | Some g \<Rightarrow> if includes_str line ''/task/'' then None else Some g)"

text \<open>
  Fifth pattern,
  \<^verbatim>\<open>/https:\/\/app.asana.com\/inbox\/\d+\/item\/(?<taskGID>\d+)/\<close>.
\<close>

definition matchInboxItem :: "string \<Rightarrow> string option" where
  "matchInboxItem line =
     search (\<lambda>s.
       Option.bind (Option.bind (Option.bind (Option.bind (asanaHost s) (lit ''/inbox/''))
         skipDigits) (lit ''/item/'')) captureDigits) line"

text \<open>
  The body of the \<^verbatim>\<open>flatMap\<close> callback: the patterns in the order of the source, each
  tried only when no earlier one matched. \<open>None\<close> is the empty array the callback returns
  when nothing matched.
\<close>

definition lineTaskGID :: "string \<Rightarrow> string option" where
  "lineTaskGID line =
     (case matchTaskItem line of Some g \<Rightarrow> Some g | None \<Rightarrow>
      (case matchProjectTask line of Some g \<Rightarrow> Some g | None \<Rightarrow>
       (case matchWorkspaceProjectTask line of Some g \<Rightarrow> Some g | None \<Rightarrow>
        (case matchV0 line of Some g \<Rightarrow> Some g | None \<Rightarrow>
         matchInboxItem line))))"

definition textLines :: "string \<Rightarrow> string list" where
  "textLines text = concat (map (splitOn (CHR 0x0A)) (splitCRLF text))"

text \<open>
  Both sorts compare with \<^verbatim>\<open>localeCompare\<close>, which the host provides. The strings sorted
  are runs of ASCII digits (\<open>lineTaskGID_digits\<close> below), and on those the collation is the
  lexicographic order of the code units, which is the order of \<^typ>\<open>string\<close> here.
\<close>

definition getAsanaTaskGIDsFromText :: "string \<Rightarrow> string list" where
  "getAsanaTaskGIDsFromText text =
     sort (uniqueInOrder (sort (concat (map (\<lambda>line.
       case lineTaskGID line of None \<Rightarrow> [] | Some g \<Rightarrow> [g]) (textLines text)))))"

section \<open>transformPRBody\<close>

record TaskInfo =
  id' :: string
  title :: string
  safeTitle :: string

record TransformResult =
  body :: string
  changesApplied :: bool
  updatedCount :: nat

record MarkdownLinkRange =
  start :: nat
  end' :: nat

text \<open>
  \<^verbatim>\<open>title.replace(/\[/g, '(').replace(/\]/g, ')')\<close>: two passes, each replacing every
  occurrence of one unit.
\<close>

definition sanitizeTitleForMarkdown :: "string \<Rightarrow> string" where
  "sanitizeTitleForMarkdown t =
     map (\<lambda>c. if c = CHR '']'' then CHR '')'' else c)
       (map (\<lambda>c. if c = CHR ''['' then CHR ''('' else c) t)"

text \<open>
  \<^verbatim>\<open>https:\/\/app\.asana\.com\/\<close>, with the dots escaped, as the transformer writes it.
\<close>

definition asanaPrefix :: string where
  "asanaPrefix = ''https://app.asana.com/''"

text \<open>The class \<^verbatim>\<open>[^\s<>"()]\<close>.\<close>

definition isUrlChar :: "char \<Rightarrow> bool" where
  "isUrlChar c =
     (\<not> isSpace c \<and> c \<noteq> CHR ''<'' \<and> c \<noteq> CHR ''>'' \<and> c \<noteq> CHR 0x22
      \<and> c \<noteq> CHR ''('' \<and> c \<noteq> CHR '')'')"

text \<open>
  \<^verbatim>\<open>/https:\/\/app\.asana\.com\/[^\s<>"()]+/g\<close> at the head of \<open>s\<close>: the greedy class
  ends the pattern, so the match is the longest run. \<open>collectFrom\<close> is the loop of
  \<^verbatim>\<open>matchAll\<close>: \<open>pos\<close> is \<^verbatim>\<open>lastIndex\<close>, which moves to the end of a match or one
  unit on.
\<close>

definition urlAt :: "string \<Rightarrow> string option" where
  "urlAt s =
     (case lit asanaPrefix s of
        None \<Rightarrow> None
      | Some r \<Rightarrow>
          if takeWhile isUrlChar r = [] then None
          else Some (asanaPrefix @ takeWhile isUrlChar r))"

function collectFrom :: "nat \<Rightarrow> string \<Rightarrow> string list" where
  "collectFrom pos text =
     (if length text \<le> pos then []
      else case urlAt (drop pos text) of
        Some u \<Rightarrow> u # collectFrom (pos + length u) text
      | None \<Rightarrow> collectFrom (Suc pos) text)"
  by pat_completeness auto
termination
  by (relation "measure (\<lambda>(pos, text). length text - pos)")
     (auto simp: urlAt_def asanaPrefix_def split: option.splits if_splits)

definition collectAllAsanaUrls :: "string \<Rightarrow> string list" where
  "collectAllAsanaUrls text = collectFrom 0 text"

text \<open>
  \<^verbatim>\<open>\[([^\]]+)\]\((P[^)]+)\)\<close> at the head of \<open>s\<close>, where \<open>P\<close> is a literal: the label
  is the longest run without a closing bracket (after a shorter one the next unit is
  not the bracket the pattern asks for), and likewise the target runs up to the first
  closing parenthesis. The result is the label and the target. With \<open>P\<close> the Asana
  prefix this is \<^verbatim>\<open>markdownRegex\<close> of transformPRBody, with \<open>P\<close> empty that of
  findMarkdownLinkIndices.
\<close>

definition linkAt :: "string \<Rightarrow> string \<Rightarrow> (string \<times> string) option" where
  "linkAt P s =
     (case lit ''['' s of
        None \<Rightarrow> None
      | Some r \<Rightarrow>
          if takeWhile (\<lambda>c. c \<noteq> CHR '']'') r = [] then None
          else
            (case lit ('']('' @ P) (dropWhile (\<lambda>c. c \<noteq> CHR '']'') r) of
               None \<Rightarrow> None
             | Some r2 \<Rightarrow>
                 if takeWhile (\<lambda>c. c \<noteq> CHR '')'') r2 = [] then None
                 else
                   (case lit '')'' (dropWhile (\<lambda>c. c \<noteq> CHR '')'') r2) of
                      None \<Rightarrow> None
                    | Some r3 \<Rightarrow>
                        Some (takeWhile (\<lambda>c. c \<noteq> CHR '']'') r,
                              P @ takeWhile (\<lambda>c. c \<noteq> CHR '')'') r2))))"

text \<open>The text of a match, \<^verbatim>\<open>[label](target)\<close>.\<close>

definition linkText :: "string \<Rightarrow> string \<Rightarrow> string" where
  "linkText label target = ''['' @ label @ '']('' @ target @ '')''"

text \<open>
  The matches of a global link pattern in a line, each with its index, label and target.
\<close>

function linksFrom :: "string \<Rightarrow> nat \<Rightarrow> string \<Rightarrow> (nat \<times> string \<times> string) list" where
  "linksFrom P pos line =
     (if length line \<le> pos then []
      else case linkAt P (drop pos line) of
        Some (label, target) \<Rightarrow>
          (pos, label, target) # linksFrom P (pos + length (linkText label target)) line
      | None \<Rightarrow> linksFrom P (Suc pos) line)"
  by pat_completeness auto
termination
  by (relation "measure (\<lambda>(P, pos, line). length line - pos)") (auto simp: linkText_def)

definition findMarkdownLinkIndices :: "string \<Rightarrow> MarkdownLinkRange list" where
  "findMarkdownLinkIndices text =
     map (\<lambda>(i, label, target). \<lparr>start = i, end' = i + length (linkText label target)\<rparr>)
       (linksFrom [] 0 text)"

text \<open>
  \<^verbatim>\<open>line.replace(fullMatch, newLink)\<close> with a string pattern replaces the first occurrence
  only, and reads the replacement as a template: \<^verbatim>\<open>$$\<close> is a dollar, \<^verbatim>\<open>$&\<close> the
  matched text, \<^verbatim>\<open>$`\<close> the text before the match and \<^verbatim>\<open>$'\<close> the text after it. A
  string pattern has no captures, so every other dollar stands for itself.
\<close>

fun getSubstitution :: "string \<Rightarrow> string \<Rightarrow> string \<Rightarrow> string \<Rightarrow> string" where
  "getSubstitution matched pre post [] = []"
| "getSubstitution matched pre post [c] = [c]"
| "getSubstitution matched pre post (c # d # r) =
     (if c = CHR ''$'' \<and> d = CHR ''$'' then CHR ''$'' # getSubstitution matched pre post r
      else if c = CHR ''$'' \<and> d = CHR ''&'' then matched @ getSubstitution matched pre post r
      else if c = CHR ''$'' \<and> d = CHR 0x60 then pre @ getSubstitution matched pre post r
      else if c = CHR ''$'' \<and> d = CHR 0x27 then post @ getSubstitution matched pre post r
      else c # getSubstitution matched pre post (d # r))"

definition replaceFirst :: "string \<Rightarrow> string \<Rightarrow> string \<Rightarrow> string" where
  "replaceFirst s pat repl =
     (case indexOf s pat 0 of
        None \<Rightarrow> s
      | Some pos \<Rightarrow>
          take pos s
          @ getSubstitution pat (take pos s) (drop (pos + length pat) s) repl
          @ drop (pos + length pat) s)"

text \<open>
  \<^verbatim>\<open>taskInfoMap\<close> is a Map from URL to TaskInfo. Its keys are distinct and it is read in
  the order of insertion, so it is a list of entries; \<^verbatim>\<open>has\<close> and \<^verbatim>\<open>get\<close> are
  \<^const>\<open>map_of\<close>.

  The loop over the existing markdown links of a line (the matches are those of the line
  as it was before the loop).
\<close>

fun updateMarkdownLinks ::
  "(string \<times> TaskInfo) list \<Rightarrow> (nat \<times> string \<times> string) list \<Rightarrow> string \<times> nat \<Rightarrow> string \<times> nat"
where
  "updateMarkdownLinks taskInfoMap [] (line, replacementCount) = (line, replacementCount)"
| "updateMarkdownLinks taskInfoMap ((i, label, asanaUrl) # matches) (line, replacementCount) =
     updateMarkdownLinks taskInfoMap matches
       (case map_of taskInfoMap asanaUrl of
          None \<Rightarrow> (line, replacementCount)
        | Some taskInfo \<Rightarrow>
            if label = title taskInfo \<or> CHR ''['' \<in> set label
            then (line, replacementCount + 1)
            else (replaceFirst line (linkText label asanaUrl)
                    (linkText (safeTitle taskInfo) asanaUrl),
                  replacementCount + 1))"

text \<open>
  The \<^verbatim>\<open>while\<close> loop over the occurrences of one URL. It searches \<open>updatedLine\<close>, the
  line as it stood after the markdown links were handled, and builds the new line from
  \<open>updatedLine\<close> as well. For the empty search string \<^verbatim>\<open>indexOf\<close> never returns -1 and
  the loop of the source does not end; \<open>None\<close> stands for that.
\<close>

function unfurlOccurrences ::
  "string \<Rightarrow> MarkdownLinkRange list \<Rightarrow> string \<Rightarrow> TaskInfo \<Rightarrow> nat \<Rightarrow> string \<times> nat
   \<Rightarrow> (string \<times> nat) option"
where
  "unfurlOccurrences updatedLine markdownIndices url taskInfo startIndex (line, replacementCount) =
     (if url = [] then None
      else case indexOf updatedLine url startIndex of
        None \<Rightarrow> Some (line, replacementCount)
      | Some urlIndex \<Rightarrow>
          if list_ex (\<lambda>range. start range \<le> urlIndex \<and> urlIndex + length url \<le> end' range)
               markdownIndices
          then unfurlOccurrences updatedLine markdownIndices url taskInfo
                 (urlIndex + length url) (line, replacementCount)
          else unfurlOccurrences updatedLine markdownIndices url taskInfo
                 (urlIndex + length (linkText (safeTitle taskInfo) url))
                 (take urlIndex updatedLine @ linkText (safeTitle taskInfo) url
                    @ drop (urlIndex + length url) updatedLine,
                  replacementCount + 1))"
  by pat_completeness auto

text \<open>The loop over the entries of \<^verbatim>\<open>taskInfoMap\<close>, in the order of insertion.\<close>

fun unfurlPlainUrls ::
  "string \<Rightarrow> MarkdownLinkRange list \<Rightarrow> (string \<times> TaskInfo) list \<Rightarrow> string \<times> nat
   \<Rightarrow> (string \<times> nat) option"
where
  "unfurlPlainUrls updatedLine markdownIndices [] st = Some st"
| "unfurlPlainUrls updatedLine markdownIndices ((url, taskInfo) # entries) st =
     (case unfurlOccurrences updatedLine markdownIndices url taskInfo 0 st of
        None \<Rightarrow> None
      | Some st' \<Rightarrow> unfurlPlainUrls updatedLine markdownIndices entries st')"

text \<open>The body of the loop over the lines.\<close>

definition processLine ::
  "(string \<times> TaskInfo) list \<Rightarrow> string \<Rightarrow> nat \<Rightarrow> (string \<times> nat) option"
where
  "processLine taskInfoMap line0 replacementCount =
     (case updateMarkdownLinks taskInfoMap (linksFrom asanaPrefix 0 line0)
             (line0, replacementCount) of
        (updatedLine, n) \<Rightarrow>
          unfurlPlainUrls updatedLine (findMarkdownLinkIndices updatedLine) taskInfoMap
            (updatedLine, n))"

fun processLines ::
  "(string \<times> TaskInfo) list \<Rightarrow> string list \<Rightarrow> nat \<Rightarrow> (string list \<times> nat) option"
where
  "processLines taskInfoMap [] replacementCount = Some ([], replacementCount)"
| "processLines taskInfoMap (line # rest) replacementCount =
     (case processLine taskInfoMap line replacementCount of
        None \<Rightarrow> None
      | Some (line', n) \<Rightarrow>
          (case processLines taskInfoMap rest n of
             None \<Rightarrow> None
           | Some (rest', n') \<Rightarrow> Some (line' # rest', n')))"

text \<open>
  The callback mapped over the unique URLs. \<open>fetchTaskTitle\<close> is the capability: it
  answers an identifier with a title, or fails (\<open>None\<close>: the promise rejects or the call
  throws, which the \<^verbatim>\<open>catch\<close> swallows). \<open>lookupOf url\<close> is the identifier the callback
  asks for, if it asks; \<open>resolveUrl\<close> is the entry it stores, if it stores one.
\<close>

definition lookupOf :: "string \<Rightarrow> string option" where
  "lookupOf url = (case getAsanaTaskGIDsFromText url of [g] \<Rightarrow> Some g | _ \<Rightarrow> None)"

definition resolveUrl :: "(string \<Rightarrow> string option) \<Rightarrow> string \<Rightarrow> (string \<times> TaskInfo) option" where
  "resolveUrl fetchTaskTitle url =
     (case lookupOf url of
        None \<Rightarrow> None
      | Some g \<Rightarrow>
          (case fetchTaskTitle g of
             None \<Rightarrow> None
           | Some t \<Rightarrow> Some (url, \<lparr>id' = g, title = t, safeTitle = sanitizeTitleForMarkdown t\<rparr>)))"

text \<open>
  The lookups are started in the order of the unique URLs and run concurrently; an entry
  is stored when its lookup settles. \<open>settled url\<close> is the time at which the lookup for
  \<open>url\<close> settles, so the entries are in the order of these times (lookups that settle
  together keep the order in which they were started).
\<close>

definition buildTaskInfoMap ::
  "(string \<Rightarrow> nat) \<Rightarrow> (string \<Rightarrow> string option) \<Rightarrow> string list \<Rightarrow> (string \<times> TaskInfo) list"
where
  "buildTaskInfoMap settled fetchTaskTitle urls =
     sort_key (\<lambda>entry. settled (fst entry)) (List.map_filter (resolveUrl fetchTaskTitle) urls)"

text \<open>
  transformPRBody. The result comes with the identifiers \<open>fetchTaskTitle\<close> was called
  with, in the order of the calls. \<open>None\<close> is a run that does not return.
\<close>

definition transformPRBody ::
  "(string \<Rightarrow> nat) \<Rightarrow> string \<Rightarrow> (string \<Rightarrow> string option)
   \<Rightarrow> (TransformResult \<times> string list) option"
where
  "transformPRBody settled body0 fetchTaskTitle =
     (if body0 = [] then Some (\<lparr>body = [], changesApplied = False, updatedCount = 0\<rparr>, [])
      else
        (case (buildTaskInfoMap settled fetchTaskTitle (uniqueInOrder (collectAllAsanaUrls body0)),
               List.map_filter lookupOf (uniqueInOrder (collectAllAsanaUrls body0))) of
           (taskInfoMap, calls) \<Rightarrow>
             if taskInfoMap = []
             then Some (\<lparr>body = body0, changesApplied = False, updatedCount = 0\<rparr>, calls)
             else
               (case processLines taskInfoMap (splitOn (CHR 0x0A) body0) 0 of
                  None \<Rightarrow> None
                | Some (lines, replacementCount) \<Rightarrow>
                    Some (\<lparr>body = joinLines lines,
                           changesApplied = (0 < replacementCount),
                           updatedCount = replacementCount\<rparr>, calls))))"

section \<open>Facts about the string primitives\<close>

declare pathSegments.simps [simp del]
declare collectFrom.simps [simp del]
declare linksFrom.simps [simp del]

lemma startsWith_iff: "startsWith s p \<longleftrightarrow> take (length p) s = p"
  by (induction s p rule: startsWith.induct) auto

lemma indexOfFrom_Some:
  "indexOfFrom s p i = Some j \<Longrightarrow> \<exists>k. j = i + k \<and> k \<le> length s \<and> startsWith (drop k s) p
      \<and> (\<forall>k'<k. \<not> startsWith (drop k' s) p)"
proof (induction s arbitrary: i)
  case Nil
  then show ?case by (auto split: if_splits)
next
  case (Cons c s)
  show ?case
  proof (cases "startsWith (c # s) p")
    case True
    with Cons.prems show ?thesis by (intro exI[of _ 0]) simp
  next
    case False
    with Cons.prems have "indexOfFrom s p (Suc i) = Some j" by simp
    from Cons.IH[OF this] obtain k where k: "j = Suc i + k" "k \<le> length s"
      "startsWith (drop k s) p" "\<forall>k'<k. \<not> startsWith (drop k' s) p" by blast
    have "\<forall>k'<Suc k. \<not> startsWith (drop k' (c # s)) p"
    proof (intro allI impI)
      fix k' assume "k' < Suc k"
      then show "\<not> startsWith (drop k' (c # s)) p"
        using False k(4) by (cases k') auto
    qed
    with k show ?thesis by (intro exI[of _ "Suc k"]) simp
  qed
qed

lemma indexOfFrom_None:
  "indexOfFrom s p i = None \<Longrightarrow> k \<le> length s \<Longrightarrow> \<not> startsWith (drop k s) p"
proof (induction s arbitrary: i k)
  case Nil
  then show ?case by (cases p) (auto split: if_splits)
next
  case (Cons c s)
  then show ?case by (cases k) (auto split: if_splits)
qed

lemma indexOf_Some:
  assumes "indexOf s p k = Some j"
  shows "min k (length s) \<le> j" and "j \<le> length s" and "take (length p) (drop j s) = p"
proof -
  let ?m = "min k (length s)"
  from assms have h: "indexOfFrom (drop ?m s) p ?m = Some j"
    by (simp add: indexOf_def)
  from indexOfFrom_Some[OF h] obtain d where d: "j = ?m + d" "d \<le> length (drop ?m s)"
    "startsWith (drop d (drop ?m s)) p" by blast
  show "?m \<le> j" using d(1) by simp
  from d(1,2) show "j \<le> length s" by auto
  from d(1,3) show "take (length p) (drop j s) = p"
    by (simp add: startsWith_iff add.commute)
qed

lemma indexOf_Some_nonempty:
  assumes "indexOf s p k = Some j" and "p \<noteq> []"
  shows "k \<le> j" and "j + length p \<le> length s"
proof -
  from indexOf_Some[OF assms(1)] have a: "min k (length s) \<le> j" and b: "j \<le> length s"
    and c: "take (length p) (drop j s) = p" by auto
  have "length (take (length p) (drop j s)) \<le> length (drop j s)" by simp
  with c have "length p \<le> length (drop j s)" by simp
  then show d: "j + length p \<le> length s" using b by simp
  from assms(2) have "0 < length p" by simp
  with d have "j < length s" by linarith
  with a show "k \<le> j" by (simp add: min_def split: if_splits)
qed

termination unfurlOccurrences
proof (relation "measure (\<lambda>(updatedLine, markdownIndices, url, taskInfo, startIndex, st).
                            length updatedLine - startIndex)")
  show "wf (measure (\<lambda>(updatedLine, markdownIndices, url, taskInfo, startIndex, st).
                            length updatedLine - startIndex))" by simp
next
  fix updatedLine :: string and markdownIndices :: "MarkdownLinkRange list"
    and url :: string and taskInfo :: TaskInfo and startIndex :: nat and line :: string
    and replacementCount :: nat and urlIndex :: nat
  assume "url \<noteq> []" and "indexOf updatedLine url startIndex = Some urlIndex"
  from indexOf_Some_nonempty[OF this(2) this(1)] \<open>url \<noteq> []\<close>
  have "startIndex \<le> urlIndex" and "urlIndex + length url \<le> length updatedLine"
    and "0 < length url" by auto
  then show "((updatedLine, markdownIndices, url, taskInfo, urlIndex + length url,
               line, replacementCount),
              (updatedLine, markdownIndices, url, taskInfo, startIndex, line, replacementCount))
             \<in> measure (\<lambda>(updatedLine, markdownIndices, url, taskInfo, startIndex, st).
                            length updatedLine - startIndex)"
    by (cases url) auto
next
  fix updatedLine :: string and markdownIndices :: "MarkdownLinkRange list"
    and url :: string and taskInfo :: TaskInfo and startIndex :: nat and line :: string
    and replacementCount :: nat and urlIndex :: nat
  assume "url \<noteq> []" and "indexOf updatedLine url startIndex = Some urlIndex"
  from indexOf_Some_nonempty[OF this(2) this(1)] \<open>url \<noteq> []\<close>
  have "startIndex \<le> urlIndex" and "urlIndex + length url \<le> length updatedLine"
    and "0 < length url" by auto
  then show "((updatedLine, markdownIndices, url, taskInfo,
               urlIndex + length (linkText (safeTitle taskInfo) url),
               take urlIndex updatedLine @ linkText (safeTitle taskInfo) url
                 @ drop (urlIndex + length url) updatedLine,
               replacementCount + 1),
              (updatedLine, markdownIndices, url, taskInfo, startIndex, line, replacementCount))
             \<in> measure (\<lambda>(updatedLine, markdownIndices, url, taskInfo, startIndex, st).
                            length updatedLine - startIndex)"
    by (cases url) (auto simp: linkText_def)
qed

declare unfurlOccurrences.simps [simp del]


section \<open>Facts about the patterns\<close>

lemma lit_Some_iff: "lit p s = Some r \<longleftrightarrow> s = p @ r"
  by (induction p s rule: lit.induct) auto

lemma lit_append: "lit p (p @ r) = Some r"
  by (simp add: lit_Some_iff)

lemma startsWith_append: "startsWith (p @ r) p"
  by (simp add: startsWith_iff)

lemma includes_str_iff: "includes_str s p \<longleftrightarrow> (\<exists>a b. s = a @ p @ b)"
proof
  assume "includes_str s p"
  then obtain j where "indexOf s p 0 = Some j"
    by (auto simp: includes_str_def)
  from indexOf_Some(3)[OF this] have "take (length p) (drop j s) = p" .
  then have "s = take j s @ p @ drop (length p) (drop j s)"
    by (metis append_take_drop_id)
  then show "\<exists>a b. s = a @ p @ b" by blast
next
  assume "\<exists>a b. s = a @ p @ b"
  then obtain a b where s: "s = a @ p @ b" by blast
  show "includes_str s p"
  proof (rule ccontr)
    assume "\<not> includes_str s p"
    then have "indexOfFrom s p 0 = None"
      by (simp add: includes_str_def indexOf_def)
    from indexOfFrom_None[OF this, of "length a"] s show False
      by (simp add: startsWith_append)
  qed
qed

lemma set_uniqueInOrder: "set (uniqueInOrder xs) = set xs"
  by (simp add: uniqueInOrder_def)

lemma distinct_uniqueInOrder: "distinct (uniqueInOrder xs)"
  by (simp add: uniqueInOrder_def)

lemma map_filter_empty: "(\<And>x. x \<in> set xs \<Longrightarrow> f x = None) \<Longrightarrow> List.map_filter f xs = []"
  by (induction xs) (auto simp: List.map_filter_simps)

lemma urlAt_Some: 
  "urlAt s = Some u \<Longrightarrow>
     \<exists>t rest. u = asanaPrefix @ t \<and> t \<noteq> [] \<and> list_all isUrlChar t \<and> s = u @ rest"
proof -
  assume a: "urlAt s = Some u"
  then obtain r where r: "lit asanaPrefix s = Some r" and ne: "takeWhile isUrlChar r \<noteq> []"
    and u: "u = asanaPrefix @ takeWhile isUrlChar r"
    by (auto simp: urlAt_def split: option.splits if_splits)
  from r have "s = asanaPrefix @ r" by (simp add: lit_Some_iff)
  then have "s = u @ dropWhile isUrlChar r" using u by simp
  moreover have "list_all isUrlChar (takeWhile isUrlChar r)"
    by (simp add: list_all_iff) (meson set_takeWhileD)
  ultimately show ?thesis using ne u by blast
qed

lemma collectFrom_members:
  "u \<in> set (collectFrom pos s) \<Longrightarrow>
     \<exists>t a b. u = asanaPrefix @ t \<and> t \<noteq> [] \<and> list_all isUrlChar t \<and> s = a @ u @ b"
proof (induction pos s rule: collectFrom.induct)
  case (1 pos s)
  show ?case
  proof (cases "length s \<le> pos")
    case True
    with "1.prems" show ?thesis by (simp add: collectFrom.simps[of pos s])
  next
    case False
    show ?thesis
    proof (cases "urlAt (drop pos s)")
      case None
      with False "1.prems" have "u \<in> set (collectFrom (Suc pos) s)"
        by (simp add: collectFrom.simps[of pos s])
      from "1.IH"(1)[OF False None this] show ?thesis .
    next
      case (Some v)
      with False "1.prems" have "u = v \<or> u \<in> set (collectFrom (pos + length v) s)"
        by (simp add: collectFrom.simps[of pos s])
      then show ?thesis
      proof
        assume "u = v"
        with urlAt_Some[OF Some] obtain t rest where
          t: "u = asanaPrefix @ t" "t \<noteq> []" "list_all isUrlChar t" "drop pos s = u @ rest"
          by blast
        have "s = take pos s @ u @ rest"
          using t(4) by (metis append_take_drop_id)
        with t show ?thesis by blast
      next
        assume "u \<in> set (collectFrom (pos + length v) s)"
        from "1.IH"(2)[OF False Some this] show ?thesis .
      qed
    qed
  qed
qed

lemma collectAllAsanaUrls_members:
  "u \<in> set (collectAllAsanaUrls text) \<Longrightarrow>
     \<exists>t a b. u = asanaPrefix @ t \<and> t \<noteq> [] \<and> list_all isUrlChar t \<and> text = a @ u @ b"
  unfolding collectAllAsanaUrls_def by (rule collectFrom_members)

lemma collectAllAsanaUrls_no_prefix:
  assumes "\<not> includes_str text asanaPrefix"
  shows "collectAllAsanaUrls text = []"
proof (rule ccontr)
  assume "collectAllAsanaUrls text \<noteq> []"
  then obtain u where "u \<in> set (collectAllAsanaUrls text)"
    by (cases "collectAllAsanaUrls text") auto
  from collectAllAsanaUrls_members[OF this] obtain t a b where
    "u = asanaPrefix @ t" "text = a @ u @ b" by blast
  then have "text = a @ asanaPrefix @ (t @ b)" by simp
  then have "includes_str text asanaPrefix"
    unfolding includes_str_iff by blast
  with assms show False by simp
qed

lemma buildTaskInfoMap_empty:
  assumes "\<And>url. url \<in> set urls \<Longrightarrow> resolveUrl fetchTaskTitle url = None"
  shows "buildTaskInfoMap settled fetchTaskTitle urls = []"
  using assms by (simp add: buildTaskInfoMap_def map_filter_empty)

section \<open>Facts about the extractor\<close>

lemma captureDigits_Some: "captureDigits t = Some g \<Longrightarrow> g \<noteq> [] \<and> list_all isDigit g"
  by (auto simp: captureDigits_def list_all_iff split: if_splits dest: set_takeWhileD)

lemma search_Some: "search f s = Some g \<Longrightarrow> \<exists>t. f t = Some g"
  by (induction s) (auto split: option.splits)

lemma lazyAny_Some: "lazyAny k s = Some g \<Longrightarrow> \<exists>t. k t = Some g"
  by (induction s) (auto split: option.splits if_splits)

lemma firstSome_Some: "firstSome xs = Some g \<Longrightarrow> Some g \<in> set xs"
  by (induction xs rule: firstSome.induct) auto

lemma gidSegments_digits: "gidSegments s = Some g \<Longrightarrow> g \<noteq> [] \<and> list_all isDigit g"
proof (induction s arbitrary: g rule: gidSegments.induct)
  case 1
  then show ?case by simp
next
  case (2 c r)
  then show ?case
    by (auto simp: list_all_iff split: if_splits option.splits dest: set_takeWhileD)
qed

lemma pathSegments_digits: "pathSegments s = Some g \<Longrightarrow> g \<noteq> [] \<and> list_all isDigit g"
proof (induction s arbitrary: g rule: pathSegments.induct)
  case (1 s)
  from "1.prems" obtain c r where s: "s = c # r" and c: "c = CHR ''/''"
    and f: "firstSome (map (\<lambda>t. case pathSegments t of Some g \<Rightarrow> Some g
                                   | None \<Rightarrow> gidSegments t) (segmentEnds r)) = Some g"
    by (subst (asm) pathSegments.simps) (auto split: list.splits if_splits)
  from firstSome_Some[OF f] obtain t where t: "t \<in> set (segmentEnds r)"
    and e: "(case pathSegments t of Some g \<Rightarrow> Some g | None \<Rightarrow> gidSegments t) = Some g"
    by auto
  show ?case
  proof (cases "pathSegments t")
    case None
    with e show ?thesis by (simp add: gidSegments_digits)
  next
    case (Some h)
    with e have "pathSegments t = Some g" by simp
    from "1.IH"[OF s c t this] show ?thesis .
  qed
qed

lemma matchTaskItem_digits: "matchTaskItem l = Some g \<Longrightarrow> g \<noteq> [] \<and> list_all isDigit g"
  unfolding matchTaskItem_def
  by (auto simp: taskOrItem_def bind_eq_Some_conv split: option.splits
           dest!: search_Some lazyAny_Some captureDigits_Some)

lemma matchProjectTask_digits: "matchProjectTask l = Some g \<Longrightarrow> g \<noteq> [] \<and> list_all isDigit g"
  unfolding matchProjectTask_def
  by (auto simp: projectTask_def bind_eq_Some_conv
           dest!: search_Some lazyAny_Some captureDigits_Some)

lemma matchWorkspaceProjectTask_digits:
  "matchWorkspaceProjectTask l = Some g \<Longrightarrow> g \<noteq> [] \<and> list_all isDigit g"
  unfolding matchWorkspaceProjectTask_def
  by (auto simp: bind_eq_Some_conv dest!: search_Some captureDigits_Some)

lemma matchV0_digits: "matchV0 l = Some g \<Longrightarrow> g \<noteq> [] \<and> list_all isDigit g"
  unfolding matchV0_def
  by (auto simp: bind_eq_Some_conv split: option.splits if_splits
           dest!: search_Some pathSegments_digits)

lemma matchInboxItem_digits: "matchInboxItem l = Some g \<Longrightarrow> g \<noteq> [] \<and> list_all isDigit g"
  unfolding matchInboxItem_def
  by (auto simp: bind_eq_Some_conv dest!: search_Some captureDigits_Some)

lemma lineTaskGID_digits: "lineTaskGID l = Some g \<Longrightarrow> g \<noteq> [] \<and> list_all isDigit g"
  unfolding lineTaskGID_def
  using matchTaskItem_digits[of l g] matchProjectTask_digits[of l g]
    matchWorkspaceProjectTask_digits[of l g] matchV0_digits[of l g] matchInboxItem_digits[of l g]
  by (auto split: option.splits)

lemma lineTaskGID_firstSome:
  "lineTaskGID l = firstSome [matchTaskItem l, matchProjectTask l, matchWorkspaceProjectTask l,
                              matchV0 l, matchInboxItem l]"
  by (cases "matchInboxItem l") (auto simp: lineTaskGID_def split: option.splits)

lemma length_concat_le:
  "(\<And>x. x \<in> set xs \<Longrightarrow> length (f x) \<le> 1) \<Longrightarrow> length (concat (map f xs)) \<le> length xs"
proof (induction xs)
  case Nil
  then show ?case by simp
next
  case (Cons x xs)
  have "length (f x) \<le> 1" by (rule Cons.prems) simp
  moreover have "\<And>y. y \<in> set xs \<Longrightarrow> length (f y) \<le> 1"
    using Cons.prems by simp
  then have "length (concat (map f xs)) \<le> length xs"
    by (rule Cons.IH)
  ultimately show ?case by simp
qed

lemma length_uniqueInOrder_le: "length (uniqueInOrder xs) \<le> length xs"
  unfolding uniqueInOrder_def using length_remdups_leq[of "rev xs"] by simp

lemma isDigit_slash: "\<not> isDigit (CHR ''/'')"
  by (simp add: isDigit_def)

lemma firstSome_all_None: "(\<And>x. x \<in> set xs \<Longrightarrow> x = None) \<Longrightarrow> firstSome xs = None"
  by (induction xs rule: firstSome.induct) auto

lemma takeWhile_digits_append:
  assumes "list_all isDigit d" and "w = [] \<or> \<not> isDigit (hd w)"
  shows "takeWhile isDigit (d @ w) = d" and "dropWhile isDigit (d @ w) = w"
proof -
  from assms(2) have t: "takeWhile isDigit w = []" and dw: "dropWhile isDigit w = w"
    by (cases w; auto)+
  from assms(1) have a: "\<And>x. x \<in> set d \<Longrightarrow> isDigit x" by (simp add: list_all_iff)
  show "takeWhile isDigit (d @ w) = d" using a t by (simp add: takeWhile_append2)
  show "dropWhile isDigit (d @ w) = w" using a dw by (simp add: dropWhile_append2)
qed

lemma segmentPath_head:
  "concat (map (\<lambda>seg. CHR ''/'' # seg) segs) = []
   \<or> \<not> isDigit (hd (concat (map (\<lambda>seg. CHR ''/'' # seg) segs)))"
  by (cases segs) (simp_all add: isDigit_slash)

lemma keyword_not_digit:
  "seg \<in> {''board'', ''search'', ''inbox''} \<Longrightarrow> takeWhile isDigit (seg @ w) = []"
  by (auto simp: isDigit_def)

lemma gidSegments_keywords:
  assumes "\<forall>seg \<in> set post. seg \<in> {''board'', ''search'', ''inbox''}"
  shows "gidSegments (concat (map (\<lambda>seg. CHR ''/'' # seg) post)) = None"
proof (cases post)
  case Nil
  then show ?thesis by simp
next
  case (Cons seg rest)
  with assms have "seg \<in> {''board'', ''search'', ''inbox''}" by simp
  from keyword_not_digit[OF this] Cons show ?thesis by simp
qed

lemma gidSegments_numeric:
  assumes "g \<noteq> []" and "list_all isDigit g"
    and "\<forall>seg \<in> set post. seg \<in> {''board'', ''search'', ''inbox''}"
  shows "gidSegments (CHR ''/'' # g @ concat (map (\<lambda>seg. CHR ''/'' # seg) post)) = Some g"
proof -
  let ?w = "concat (map (\<lambda>seg. CHR ''/'' # seg) post)"
  have t: "takeWhile isDigit (g @ ?w) = g" and d: "dropWhile isDigit (g @ ?w) = ?w"
    using takeWhile_digits_append[OF assms(2) segmentPath_head[of post]] by auto
  show ?thesis using assms(1) gidSegments_keywords[OF assms(3)] by (simp add: t d)
qed

lemma pathSegments_digit_head: "isDigit c \<Longrightarrow> pathSegments (c # r) = None"
  by (subst pathSegments.simps) (auto simp: isDigit_slash)

lemma gidSegments_digit_head: "isDigit c \<Longrightarrow> gidSegments (c # r) = None"
  by (auto simp: isDigit_slash)

lemma pathSegments_numeric_step:
  assumes "seg \<noteq> []" and "list_all isDigit seg" and "w = [] \<or> \<not> isDigit (hd w)"
  shows "pathSegments (CHR ''/'' # seg @ w)
           = (case pathSegments w of Some x \<Rightarrow> Some x | None \<Rightarrow> gidSegments w)"
proof -
  let ?f = "\<lambda>t. case pathSegments t of Some g \<Rightarrow> Some g | None \<Rightarrow> gidSegments t"
  let ?n = "length seg"
  from assms(1) obtain c cs where seg: "seg = c # cs" by (cases seg) auto
  with assms(2) have c: "isDigit c" by simp
  have t: "takeWhile isDigit (seg @ w) = seg"
    using takeWhile_digits_append(1)[OF assms(2,3)] .
  have kw: "\<not> startsWith (seg @ w) ''board''" "\<not> startsWith (seg @ w) ''search''"
    "\<not> startsWith (seg @ w) ''inbox''"
    using c by (auto simp: seg isDigit_def)
  have ends: "segmentEnds (seg @ w) = map (\<lambda>n. drop n (seg @ w)) (rev [1 ..< Suc ?n])"
    by (simp add: segmentEnds_def t kw)
  have r: "rev [1 ..< Suc ?n] = ?n # rev [1 ..< ?n]"
    using assms(1) by (cases seg) auto
  have shorter: "?f (drop n (seg @ w)) = None" if "n \<in> set (rev [1 ..< ?n])" for n
  proof -
    from that have n: "n < ?n" by simp
    then obtain e es where e: "drop n seg = e # es" by (cases "drop n seg") auto
    then have "e \<in> set seg" by (metis in_set_dropD list.set_intros(1))
    with assms(2) have "isDigit e" by (simp add: list_all_iff)
    moreover have "drop n (seg @ w) = e # es @ w" using n e by simp
    ultimately show ?thesis
      by (simp add: pathSegments_digit_head gidSegments_digit_head del: gidSegments.simps)
  qed
  have "firstSome (map ?f (map (\<lambda>n. drop n (seg @ w)) (rev [1 ..< ?n]))) = None"
  proof (rule firstSome_all_None)
    fix x
    assume "x \<in> set (map ?f (map (\<lambda>n. drop n (seg @ w)) (rev [1 ..< ?n])))"
    then obtain n where "n \<in> set (rev [1 ..< ?n])" and "x = ?f (drop n (seg @ w))"
      unfolding set_map by blast
    with shorter show "x = None" by simp
  qed
  then have "firstSome (map ?f (segmentEnds (seg @ w))) = ?f w"
    unfolding ends r by (cases "?f w") simp_all
  then show ?thesis
    by (subst pathSegments.simps) simp
qed

lemma pathSegments_keyword_step:
  assumes "seg \<in> {''board'', ''search'', ''inbox''}"
  shows "pathSegments (CHR ''/'' # seg @ w)
           = (case pathSegments w of Some x \<Rightarrow> Some x | None \<Rightarrow> gidSegments w)"
proof -
  let ?f = "\<lambda>t. case pathSegments t of Some g \<Rightarrow> Some g | None \<Rightarrow> gidSegments t"
  have "segmentEnds (seg @ w) = [w]"
    using assms keyword_not_digit[OF assms, of w]
    by (auto simp: segmentEnds_def)
  then have "firstSome (map ?f (segmentEnds (seg @ w))) = ?f w"
    by (cases "?f w") simp_all
  then show ?thesis
    by (subst pathSegments.simps) simp
qed

lemma pathSegments_step:
  assumes "(seg \<noteq> [] \<and> list_all isDigit seg) \<or> seg \<in> {''board'', ''search'', ''inbox''}"
  shows "pathSegments (CHR ''/'' # seg @ concat (map (\<lambda>seg. CHR ''/'' # seg) segs))
           = (case pathSegments (concat (map (\<lambda>seg. CHR ''/'' # seg) segs)) of
                Some x \<Rightarrow> Some x
              | None \<Rightarrow> gidSegments (concat (map (\<lambda>seg. CHR ''/'' # seg) segs)))"
  using assms pathSegments_numeric_step[OF _ _ segmentPath_head[of segs], of seg]
    pathSegments_keyword_step[of seg]
  by blast

lemma pathSegments_keywords:
  assumes "\<forall>seg \<in> set post. seg \<in> {''board'', ''search'', ''inbox''}"
  shows "pathSegments (concat (map (\<lambda>seg. CHR ''/'' # seg) post)) = None"
  using assms
proof (induction post)
  case Nil
  then show ?case by (subst pathSegments.simps) simp
next
  case (Cons seg rest)
  then have k: "seg \<in> {''board'', ''search'', ''inbox''}"
    and r: "\<forall>seg \<in> set rest. seg \<in> {''board'', ''search'', ''inbox''}" by simp_all
  have "pathSegments (CHR ''/'' # seg @ concat (map (\<lambda>seg. CHR ''/'' # seg) rest)) = None"
    using Cons.IH[OF r] gidSegments_keywords[OF r]
    by (subst pathSegments_step) (use k in simp_all)
  then show ?case by simp
qed

lemma pathSegments_last_numeric:
  assumes "pre \<noteq> []"
    and "\<forall>seg \<in> set pre. (seg \<noteq> [] \<and> list_all isDigit seg)
                            \<or> seg \<in> {''board'', ''search'', ''inbox''}"
    and "g \<noteq> []" and "list_all isDigit g"
    and "\<forall>seg \<in> set post. seg \<in> {''board'', ''search'', ''inbox''}"
  shows "pathSegments (concat (map (\<lambda>seg. CHR ''/'' # seg) (pre @ [g] @ post))) = Some g"
  using assms(1,2)
proof (induction pre rule: list_nonempty_induct)
  case (single seg)
  have one: "pathSegments (concat (map (\<lambda>seg. CHR ''/'' # seg) ([g] @ post))) = None"
    using pathSegments_step[of g post] assms(3,4) pathSegments_keywords[OF assms(5)]
      gidSegments_keywords[OF assms(5)] by simp
  have "pathSegments (CHR ''/'' # seg @ concat (map (\<lambda>seg. CHR ''/'' # seg) ([g] @ post)))
          = Some g"
    using one gidSegments_numeric[OF assms(3,4,5)]
    by (subst pathSegments_step) (use single in simp_all)
  then show ?case by simp
next
  case (cons seg rest)
  then have v: "(seg \<noteq> [] \<and> list_all isDigit seg) \<or> seg \<in> {''board'', ''search'', ''inbox''}"
    and r: "\<forall>seg \<in> set rest. (seg \<noteq> [] \<and> list_all isDigit seg)
                            \<or> seg \<in> {''board'', ''search'', ''inbox''}" by simp_all
  have "pathSegments (CHR ''/'' # seg
          @ concat (map (\<lambda>seg. CHR ''/'' # seg) (rest @ [g] @ post))) = Some g"
    using cons.IH[OF r] by (subst pathSegments_step[OF v]) simp
  then show ?case by simp
qed

lemma search_Some_suffix: "search f s = Some g \<Longrightarrow> \<exists>a t. s = a @ t \<and> f t = Some g"
proof (induction s)
  case Nil
  then show ?case by simp
next
  case (Cons c s)
  show ?case
  proof (cases "f (c # s)")
    case None
    with Cons.prems have "search f s = Some g" by simp
    from Cons.IH[OF this] obtain a t where "s = a @ t" "f t = Some g" by blast
    then have "c # s = (c # a) @ t \<and> f t = Some g" by simp
    then show ?thesis by blast
  next
    case (Some h)
    with Cons.prems have "c # s = [] @ (c # s) \<and> f (c # s) = Some g" by simp
    then show ?thesis by blast
  qed
qed

lemma lazyAny_Some_suffix: "lazyAny k s = Some g \<Longrightarrow> \<exists>a t. s = a @ t \<and> k t = Some g"
proof (induction s)
  case Nil
  then show ?case by simp
next
  case (Cons c s)
  show ?case
  proof (cases "k (c # s)")
    case None
    with Cons.prems have "lazyAny k s = Some g" by (simp split: if_splits)
    from Cons.IH[OF this] obtain a t where "s = a @ t" "k t = Some g" by blast
    then have "c # s = (c # a) @ t \<and> k t = Some g" by simp
    then show ?thesis by blast
  next
    case (Some h)
    with Cons.prems have "c # s = [] @ (c # s) \<and> k (c # s) = Some g" by simp
    then show ?thesis by blast
  qed
qed

lemma lit_Some_suffix: "lit p s = Some r \<Longrightarrow> \<exists>a. s = a @ r"
  by (auto simp: lit_Some_iff)

lemma dot_Some_suffix: "dot s = Some r \<Longrightarrow> \<exists>a. s = a @ r"
  by (auto simp: dot_def split: list.splits if_splits)

lemma skipDigits_Some_suffix: "skipDigits s = Some r \<Longrightarrow> \<exists>a. s = a @ r"
proof -
  assume "skipDigits s = Some r"
  then have "r = dropWhile isDigit s" by (simp add: skipDigits_def split: if_splits)
  then have "s = takeWhile isDigit s @ r" by simp
  then show ?thesis by blast
qed

lemma asanaHost_Some_suffix: "asanaHost s = Some r \<Longrightarrow> \<exists>a. s = a @ r"
proof -
  assume "asanaHost s = Some r"
  then obtain r1 r2 r3 r4 where "lit ''https://app'' s = Some r1" "dot r1 = Some r2"
    "lit ''asana'' r2 = Some r3" "dot r3 = Some r4" "lit ''com'' r4 = Some r"
    by (auto simp: asanaHost_def bind_eq_Some_conv)
  then obtain a1 a2 a3 a4 a5 where "s = a1 @ r1" "r1 = a2 @ r2" "r2 = a3 @ r3" "r3 = a4 @ r4"
    "r4 = a5 @ r"
    by (meson lit_Some_suffix dot_Some_suffix)
  then have "s = (a1 @ a2 @ a3 @ a4 @ a5) @ r" by simp
  then show ?thesis by blast
qed

lemma includes_str_suffixI: "s = a @ r \<Longrightarrow> lit p r = Some b \<Longrightarrow> includes_str s p"
  unfolding includes_str_iff lit_Some_iff by blast

lemma matchTaskItem_Some_includes:
  assumes "matchTaskItem l = Some g"
  shows "includes_str l ''/task/'' \<or> includes_str l ''/item/''"
proof -
  from assms obtain a t where l: "l = a @ t"
    and t: "Option.bind (asanaHost t) (lazyAny taskOrItem) = Some g"
    unfolding matchTaskItem_def by (blast dest: search_Some_suffix)
  from t obtain r where "asanaHost t = Some r" and "lazyAny taskOrItem r = Some g"
    by (auto simp: bind_eq_Some_conv)
  then obtain h a2 t2 where "t = h @ r" and "r = a2 @ t2" and k: "taskOrItem t2 = Some g"
    by (meson asanaHost_Some_suffix lazyAny_Some_suffix)
  with l have l2: "l = (a @ h @ a2) @ t2" by simp
  from k have "(\<exists>b. lit ''/task/'' t2 = Some b) \<or> (\<exists>b. lit ''/item/'' t2 = Some b)"
    by (auto simp: taskOrItem_def bind_eq_Some_conv split: option.splits)
  with l2 show ?thesis by (blast intro: includes_str_suffixI)
qed

lemma matchProjectTask_Some_includes:
  assumes "matchProjectTask l = Some g"
  shows "includes_str l ''/task/''"
proof -
  from assms obtain a t where l: "l = a @ t"
    and t: "Option.bind (asanaHost t) (lazyAny projectTask) = Some g"
    unfolding matchProjectTask_def by (blast dest: search_Some_suffix)
  from t obtain r where "asanaHost t = Some r" and "lazyAny projectTask r = Some g"
    by (auto simp: bind_eq_Some_conv)
  then obtain h a2 t2 where "t = h @ r" and "r = a2 @ t2" and k: "projectTask t2 = Some g"
    by (meson asanaHost_Some_suffix lazyAny_Some_suffix)
  with l have l2: "l = (a @ h @ a2) @ t2" by simp
  from k obtain r1 r2 r3 where "lit ''/project/'' t2 = Some r1" "skipDigits r1 = Some r2"
    and r3: "lit ''/task/'' r2 = Some r3"
    by (auto simp: projectTask_def bind_eq_Some_conv)
  then obtain b1 b2 where "t2 = b1 @ r1" "r1 = b2 @ r2"
    by (meson lit_Some_suffix skipDigits_Some_suffix)
  with l2 have "l = (a @ h @ a2 @ b1 @ b2) @ r2" by simp
  with r3 show ?thesis by (blast intro: includes_str_suffixI)
qed

lemma matchWorkspaceProjectTask_Some_includes:
  assumes "matchWorkspaceProjectTask l = Some g"
  shows "includes_str l ''/task/''"
proof -
  from assms obtain a t where l: "l = a @ t"
    and t: "Option.bind (Option.bind (Option.bind (Option.bind (Option.bind (Option.bind
         (Option.bind (Option.bind (asanaHost t) (lit ''/'')) skipDigits) (lit ''/''))
           skipDigits) (lit ''/project/'')) skipDigits) (lit ''/task/'')) captureDigits = Some g"
    unfolding matchWorkspaceProjectTask_def by (blast dest: search_Some_suffix)
  from t obtain r1 r2 r3 r4 r5 r6 r7 r8 where c: "asanaHost t = Some r1" "lit ''/'' r1 = Some r2"
    "skipDigits r2 = Some r3" "lit ''/'' r3 = Some r4" "skipDigits r4 = Some r5"
    "lit ''/project/'' r5 = Some r6" "skipDigits r6 = Some r7" and r8: "lit ''/task/'' r7 = Some r8"
    by (auto simp: bind_eq_Some_conv)
  from c obtain b1 b2 b3 b4 b5 b6 b7 where "t = b1 @ r1" "r1 = b2 @ r2" "r2 = b3 @ r3"
    "r3 = b4 @ r4" "r4 = b5 @ r5" "r5 = b6 @ r6" "r6 = b7 @ r7"
    by (meson asanaHost_Some_suffix lit_Some_suffix skipDigits_Some_suffix)
  with l have "l = (a @ b1 @ b2 @ b3 @ b4 @ b5 @ b6 @ b7) @ r7" by simp
  with r8 show ?thesis by (blast intro: includes_str_suffixI)
qed

lemma indexOfFrom_skip:
  "c \<notin> set a \<Longrightarrow> indexOfFrom (a @ w) (c # ps) i = indexOfFrom w (c # ps) (i + length a)"
  by (induction a arbitrary: i) auto

lemma digit_segment_no_slash: "list_all isDigit seg \<Longrightarrow> CHR ''/'' \<notin> set seg"
  by (auto simp: list_all_iff isDigit_slash)

lemma indexOfFrom_segments:
  assumes "\<forall>seg \<in> set segs. (seg \<noteq> [] \<and> list_all isDigit seg)
                            \<or> seg \<in> {''board'', ''search'', ''inbox''}"
    and "\<And>seg w. seg \<in> {''board'', ''search'', ''inbox''} \<Longrightarrow> \<not> startsWith (seg @ w) ps"
    and "ps \<noteq> []" and "\<not> isDigit (hd ps)"
  shows "indexOfFrom (concat (map (\<lambda>seg. CHR ''/'' # seg) segs)) (CHR ''/'' # ps) i = None"
  using assms(1)
proof (induction segs arbitrary: i)
  case Nil
  then show ?case by simp
next
  case (Cons seg rest)
  let ?w = "concat (map (\<lambda>seg. CHR ''/'' # seg) rest)"
  from Cons.prems have v: "(seg \<noteq> [] \<and> list_all isDigit seg) \<or> seg \<in> {''board'', ''search'', ''inbox''}"
    and r: "\<forall>seg \<in> set rest. (seg \<noteq> [] \<and> list_all isDigit seg)
                            \<or> seg \<in> {''board'', ''search'', ''inbox''}" by simp_all
  have ns: "\<not> startsWith (seg @ ?w) ps"
  proof (cases "seg \<in> {''board'', ''search'', ''inbox''}")
    case True
    then show ?thesis by (rule assms(2))
  next
    case False
    with v obtain c cs where "seg = c # cs" and "isDigit c" by (cases seg) auto
    moreover from assms(3) obtain q qs where "ps = q # qs" by (cases ps) auto
    ultimately show ?thesis using assms(4) by auto
  qed
  have sl: "CHR ''/'' \<notin> set seg"
    using v digit_segment_no_slash[of seg] by auto
  have "indexOfFrom (CHR ''/'' # seg @ ?w) (CHR ''/'' # ps) i
          = indexOfFrom (seg @ ?w) (CHR ''/'' # ps) (Suc i)"
    using ns by simp
  also have "\<dots> = indexOfFrom ?w (CHR ''/'' # ps) (Suc i + length seg)"
    by (rule indexOfFrom_skip[OF sl])
  also have "\<dots> = None" by (rule Cons.IH[OF r])
  finally show ?case by simp
qed

lemma v0_line_no_task:
  assumes "\<forall>seg \<in> set segs. (seg \<noteq> [] \<and> list_all isDigit seg)
                            \<or> seg \<in> {''board'', ''search'', ''inbox''}"
  shows "\<not> includes_str (''https://app.asana.com'' @ concat (map (\<lambda>seg. CHR ''/'' # seg) segs))
            ''/task/''"
proof -
  have "indexOfFrom (concat (map (\<lambda>seg. CHR ''/'' # seg) segs)) (CHR ''/'' # ''task/'') i = None"
    for i
    by (rule indexOfFrom_segments[OF assms]) (auto simp: isDigit_def)
  then show ?thesis
    by (simp add: includes_str_def indexOf_def)
qed

lemma v0_line_no_item:
  assumes "\<forall>seg \<in> set segs. (seg \<noteq> [] \<and> list_all isDigit seg)
                            \<or> seg \<in> {''board'', ''search'', ''inbox''}"
  shows "\<not> includes_str (''https://app.asana.com'' @ concat (map (\<lambda>seg. CHR ''/'' # seg) segs))
            ''/item/''"
proof -
  have "indexOfFrom (concat (map (\<lambda>seg. CHR ''/'' # seg) segs)) (CHR ''/'' # ''item/'') i = None"
    for i
    by (rule indexOfFrom_segments[OF assms]) (auto simp: isDigit_def)
  then show ?thesis
    by (simp add: includes_str_def indexOf_def)
qed

lemma splitOn_no_sep: "sep \<notin> set s \<Longrightarrow> splitOn sep s = [s]"
  by (induction s) auto

lemma splitCRLF_no_CR: "CHR 0x0D \<notin> set s \<Longrightarrow> splitCRLF s = [s]"
  by (induction s rule: splitCRLF.induct) auto

lemma textLines_single:
  "CHR 0x0D \<notin> set s \<Longrightarrow> CHR 0x0A \<notin> set s \<Longrightarrow> textLines s = [s]"
  by (simp add: textLines_def splitCRLF_no_CR splitOn_no_sep)

lemma asanaHost_literal: "asanaHost (''https://app.asana.com'' @ w) = Some w"
  by (simp add: asanaHost_def dot_def isLineTerminator_def)

section \<open>Facts about the transformer\<close>

lemma takeWhile_until: "c \<notin> set l \<Longrightarrow> takeWhile (\<lambda>x. x \<noteq> c) (l @ c # r) = l"
  by (induction l) auto

lemma dropWhile_until: "c \<notin> set l \<Longrightarrow> dropWhile (\<lambda>x. x \<noteq> c) (l @ c # r) = c # r"
  by (induction l) auto

lemma linkAt_linkText:
  assumes "l \<noteq> []" and "CHR '']'' \<notin> set l" and "t \<noteq> []" and "CHR '')'' \<notin> set t"
  shows "linkAt P (linkText l (P @ t) @ rest) = Some (l, P @ t)"
proof -
  have s: "linkText l (P @ t) @ rest
             = CHR ''['' # (l @ CHR '']'' # (CHR ''('' # P @ (t @ CHR '')'' # rest)))"
    by (simp add: linkText_def)
  have a: "lit ''['' (linkText l (P @ t) @ rest)
             = Some (l @ CHR '']'' # (CHR ''('' # P @ (t @ CHR '')'' # rest)))"
    unfolding s by simp
  show ?thesis
    unfolding linkAt_def a
    using assms(1,3)
    by (simp add: takeWhile_until[OF assms(2)] dropWhile_until[OF assms(2)] lit_append
        takeWhile_until[OF assms(4)] dropWhile_until[OF assms(4)])
qed

lemma linksFrom_past_end: "length line \<le> pos \<Longrightarrow> linksFrom P pos line = []"
  by (simp add: linksFrom.simps)

lemma linksFrom_linkText:
  assumes "l \<noteq> []" and "CHR '']'' \<notin> set l" and "t \<noteq> []" and "CHR '')'' \<notin> set t"
  shows "linksFrom P 0 (linkText l (P @ t)) = [(0, l, P @ t)]"
proof -
  have "linkAt P (linkText l (P @ t)) = Some (l, P @ t)"
    using linkAt_linkText[OF assms, of P "[]"] by simp
  moreover have "0 < length (linkText l (P @ t))" by (simp add: linkText_def)
  ultimately show ?thesis
    by (subst linksFrom.simps) (simp add: linksFrom_past_end)
qed

lemma lit_needs: "lit p s = Some r \<Longrightarrow> set p \<subseteq> set s"
  by (auto simp: lit_Some_iff)

lemma linkAt_needs_paren: "linkAt P s = Some x \<Longrightarrow> CHR ''('' \<in> set s"
proof -
  assume "linkAt P s = Some x"
  then obtain r r2 where r: "lit ''['' s = Some r"
    and r2: "lit ('']('' @ P) (dropWhile (\<lambda>c. c \<noteq> CHR '']'') r) = Some r2"
    by (auto simp: linkAt_def split: option.splits if_splits)
  from lit_needs[OF r2] have "CHR ''('' \<in> set (dropWhile (\<lambda>c. c \<noteq> CHR '']'') r)" by simp
  then have "CHR ''('' \<in> set r" by (rule set_dropWhileD)
  with r show ?thesis by (auto simp: lit_Some_iff)
qed

lemma linksFrom_no_paren: "CHR ''('' \<notin> set line \<Longrightarrow> linksFrom P pos line = []"
proof (induction P pos line rule: linksFrom.induct)
  case (1 P pos line)
  show ?case
  proof (cases "length line \<le> pos")
    case True
    then show ?thesis by (rule linksFrom_past_end)
  next
    case False
    have "linkAt P (drop pos line) = None"
    proof (cases "linkAt P (drop pos line)")
      case (Some x)
      from linkAt_needs_paren[OF this] have "CHR ''('' \<in> set line" by (rule in_set_dropD)
      with "1.prems" show ?thesis by simp
    qed simp
    with False "1.IH"(1)[OF False this "1.prems"] show ?thesis
      by (subst linksFrom.simps) simp
  qed
qed

lemma sanitizeTitleForMarkdown_map:
  "sanitizeTitleForMarkdown t
     = map (\<lambda>c. if c = CHR ''['' then CHR ''('' else if c = CHR '']'' then CHR '')'' else c) t"
  by (induction t) (auto simp: sanitizeTitleForMarkdown_def)

lemma sanitizeTitleForMarkdown_no_brackets:
  "CHR ''['' \<notin> set (sanitizeTitleForMarkdown t)" "CHR '']'' \<notin> set (sanitizeTitleForMarkdown t)"
  by (auto simp: sanitizeTitleForMarkdown_map)

lemma sanitizeTitleForMarkdown_length: "length (sanitizeTitleForMarkdown t) = length t"
  by (simp add: sanitizeTitleForMarkdown_map)

lemma isUrlChar_not: "isUrlChar c \<Longrightarrow> c \<noteq> CHR ''('' \<and> c \<noteq> CHR '')'' \<and> c \<noteq> CHR 0x0A"
  by (auto simp: isUrlChar_def isSpace_def)

lemma url_chars:
  assumes "list_all isUrlChar tail"
  shows "CHR ''('' \<notin> set (asanaPrefix @ tail)" and "CHR '')'' \<notin> set (asanaPrefix @ tail)"
    and "CHR 0x0A \<notin> set (asanaPrefix @ tail)" and "CHR '')'' \<notin> set tail"
  using assms isUrlChar_not by (auto simp: list_all_iff asanaPrefix_def)

lemma collectFrom_past_end: "length s \<le> pos \<Longrightarrow> collectFrom pos s = []"
  by (simp add: collectFrom.simps)

lemma collectAllAsanaUrls_url:
  assumes "tail \<noteq> []" and "list_all isUrlChar tail"
  shows "collectAllAsanaUrls (asanaPrefix @ tail) = [asanaPrefix @ tail]"
proof -
  from assms(2) have tt: "takeWhile isUrlChar tail = tail"
    by (simp add: takeWhile_eq_all_conv list_all_iff)
  have "urlAt (asanaPrefix @ tail) = Some (asanaPrefix @ tail)"
    by (simp add: urlAt_def lit_append tt assms(1))
  moreover have "0 < length (asanaPrefix @ tail)" using assms(1) by simp
  ultimately show ?thesis
    unfolding collectAllAsanaUrls_def
    by (subst collectFrom.simps) (simp add: collectFrom_past_end)
qed

lemma indexOf_self: "s \<noteq> [] \<Longrightarrow> indexOf s s 0 = Some 0"
  by (cases s) (simp_all add: indexOf_def startsWith_iff)

lemma indexOf_past_end: "p \<noteq> [] \<Longrightarrow> length s \<le> k \<Longrightarrow> indexOf s p k = None"
  by (simp add: indexOf_def min_def)

lemma unfurlOccurrences_whole_line:
  assumes "url \<noteq> []"
  shows "unfurlOccurrences url [] url taskInfo 0 (url, n)
           = Some (linkText (safeTitle taskInfo) url, n + 1)"
proof -
  have "length url \<le> length (linkText (safeTitle taskInfo) url)"
    by (simp add: linkText_def)
  then have "unfurlOccurrences url [] url taskInfo (length (linkText (safeTitle taskInfo) url))
          (linkText (safeTitle taskInfo) url, n + 1) = Some (linkText (safeTitle taskInfo) url, n + 1)"
    using assms by (subst unfurlOccurrences.simps) (simp add: indexOf_past_end)
  then show ?thesis
    using assms by (subst unfurlOccurrences.simps) (simp add: indexOf_self)
qed
















lemma occurrence_includes:
  "take (length p) (drop k s) = p \<Longrightarrow> includes_str s p"
proof -
  assume "take (length p) (drop k s) = p"
  then have "s = take k s @ p @ drop (length p) (drop k s)"
    by (metis append_take_drop_id)
  then show ?thesis unfolding includes_str_iff by blast
qed















lemma indexOfFrom_first:
  assumes "startsWith (drop k s) p" and "k \<le> length s"
    and "\<forall>k' < k. \<not> startsWith (drop k' s) p"
  shows "indexOfFrom s p i = Some (i + k)"
  using assms
proof (induction s arbitrary: i k)
  case Nil
  then show ?case by (cases p) auto
next
  case (Cons c s)
  show ?case
  proof (cases k)
    case 0
    with Cons.prems show ?thesis by simp
  next
    case (Suc j)
    with Cons.prems(3) have n0: "\<not> startsWith (c # s) p" by force
    have "\<forall>k' < j. \<not> startsWith (drop k' s) p"
    proof (intro allI impI)
      fix k' assume "k' < j"
      then have "Suc k' < k" using Suc by simp
      with Cons.prems(3) have "\<not> startsWith (drop (Suc k') (c # s)) p" by blast
      then show "\<not> startsWith (drop k' s) p" by simp
    qed
    with Cons.IH[of j "Suc i"] Cons.prems(1,2) Suc
    have "indexOfFrom s p (Suc i) = Some (Suc i + j)" by simp
    with n0 Suc show ?thesis by simp
  qed
qed

lemma indexOfFrom_absent:
  assumes "\<forall>k \<le> length s. \<not> startsWith (drop k s) p"
  shows "indexOfFrom s p i = None"
  using assms
proof (induction s arbitrary: i)
  case Nil
  then show ?case by (cases p) auto
next
  case (Cons c s)
  from Cons.prems have n0: "\<not> startsWith (c # s) p" by force
  have "\<forall>k \<le> length s. \<not> startsWith (drop k s) p"
  proof (intro allI impI)
    fix k assume "k \<le> length s"
    then have "Suc k \<le> length (c # s)" by simp
    with Cons.prems have "\<not> startsWith (drop (Suc k) (c # s)) p" by blast
    then show "\<not> startsWith (drop k s) p" by simp
  qed
  from Cons.IH[OF this] n0 show ?case by simp
qed

lemma startsWith_includes: "startsWith (drop k s) p \<Longrightarrow> includes_str s p"
  by (rule occurrence_includes[of p k]) (simp add: startsWith_iff)

lemma collectFrom_none:
  assumes "\<forall>j \<ge> k. urlAt (drop j s) = None"
  shows "collectFrom k s = []"
  using assms
proof (induction k s rule: collectFrom.induct)
  case (1 pos s)
  show ?case
  proof (cases "length s \<le> pos")
    case True
    then show ?thesis by (rule collectFrom_past_end)
  next
    case False
    from "1.prems" have n: "urlAt (drop pos s) = None" by simp
    have "\<forall>j \<ge> Suc pos. urlAt (drop j s) = None" using "1.prems" by simp
    from "1.IH"(1)[OF False n this] False n show ?thesis
      by (subst collectFrom.simps) simp
  qed
qed

lemma urlAt_startsWith: "urlAt s = Some u \<Longrightarrow> startsWith s asanaPrefix"
  by (auto simp: urlAt_def startsWith_iff lit_Some_iff split: option.splits if_splits)

lemma linksFrom_no_paren_after:
  assumes "CHR ''('' \<notin> set (drop pos line)"
  shows "linksFrom P pos line = []"
  using assms
proof (induction P pos line rule: linksFrom.induct)
  case (1 P pos line)
  show ?case
  proof (cases "length line \<le> pos")
    case True
    then show ?thesis by (rule linksFrom_past_end)
  next
    case False
    have n: "linkAt P (drop pos line) = None"
    proof (cases "linkAt P (drop pos line)")
      case (Some x)
      from linkAt_needs_paren[OF this] "1.prems" show ?thesis by simp
    qed simp
    have "CHR ''('' \<notin> set (drop (Suc pos) line)"
      using "1.prems" set_drop_subset_set_drop[of pos "Suc pos" line] by auto
    from "1.IH"(1)[OF False n this] False n show ?thesis
      by (subst linksFrom.simps) simp
  qed
qed


lemma takeWhile_run:
  assumes "\<forall>x \<in> set a. P x" and "b = [] \<or> \<not> P (hd b)"
  shows "takeWhile P (a @ b) = a"
proof -
  from assms(2) have "takeWhile P b = []" by (cases b) auto
  with assms(1) show ?thesis by (simp add: takeWhile_append2)
qed

lemma startsWith_shorter: "startsWith s (a @ b) \<Longrightarrow> startsWith s a"
proof -
  assume "startsWith s (a @ b)"
  then have "take (length a + length b) s = a @ b" by (simp add: startsWith_iff)
  then have "take (length a) (take (length a + length b) s) = a" by simp
  then have "take (length a) s = a" by (simp add: min_def)
  then show ?thesis by (simp add: startsWith_iff)
qed

lemma asanaPrefix_split: "asanaPrefix = ''https://app.asana.com'' @ ''/''"
  by (simp add: asanaPrefix_def)

lemma take_append_cut:
  assumes "1 \<le> length a" and "n = Suc (length h)"
  shows "take n (a @ h @ rest) = take n (a @ h)"
  using assms by simp

lemma no_early_occurrence:
  assumes "\<not> includes_str (pre @ h) (h @ [c])" and "k < length pre"
  shows "\<not> startsWith (drop k (pre @ (h @ [c]) @ rest)) (h @ [c])"
proof
  let ?a = "drop k pre"
  let ?n = "Suc (length h)"
  assume "startsWith (drop k (pre @ (h @ [c]) @ rest)) (h @ [c])"
  then have "take ?n (?a @ h @ ([c] @ rest)) = h @ [c]"
    using assms(2) by (simp add: startsWith_iff)
  moreover have "1 \<le> length ?a" using assms(2) by simp
  from take_append_cut[OF this refl, of h "[c] @ rest"]
  have "take ?n (?a @ h @ ([c] @ rest)) = take ?n (?a @ h)" .
  ultimately have "take ?n (?a @ h) = h @ [c]" by simp
  then have "startsWith (drop k (pre @ h)) (h @ [c])"
    using assms(2) by (simp add: startsWith_iff)
  from startsWith_includes[OF this] assms(1) show False by simp
qed

lemma no_early_prefix:
  assumes "\<not> includes_str (pre @ ''https://app.asana.com'') asanaPrefix" and "k < length pre"
  shows "\<not> startsWith (drop k (pre @ asanaPrefix @ rest)) asanaPrefix"
proof -
  have a: "\<not> includes_str (pre @ ''https://app.asana.com'') (''https://app.asana.com'' @ ''/'')"
    using assms(1) by (simp add: asanaPrefix_def)
  from no_early_occurrence[OF a assms(2), of rest] show ?thesis
    by (simp add: asanaPrefix_def)
qed

lemma drop_past_prefix: "drop (length a + j) (a @ b) = drop j b"
  by simp

lemma collectFrom_single:
  assumes "\<not> includes_str (pre @ ''https://app.asana.com'') asanaPrefix"
    and "post = [] \<or> \<not> isUrlChar (hd post)"
    and "\<not> includes_str post asanaPrefix"
    and "tail \<noteq> []" and "list_all isUrlChar tail"
    and "k \<le> length pre"
  shows "collectFrom k (pre @ (asanaPrefix @ tail) @ post) = [asanaPrefix @ tail]"
  using assms(6)
proof (induction "length pre - k" arbitrary: k)
  case 0
  let ?url = "asanaPrefix @ tail"
  let ?b = "pre @ ?url @ post"
  from 0 have k: "k = length pre" by simp
  have tw: "takeWhile isUrlChar (tail @ post) = tail"
    using assms(5,2) by (intro takeWhile_run) (simp_all add: list_all_iff)
  have "lit asanaPrefix (asanaPrefix @ (tail @ post)) = Some (tail @ post)"
    by (rule lit_append)
  then have ua: "urlAt (drop k ?b) = Some ?url"
    using assms(4) by (simp add: k urlAt_def tw)
  have after: "collectFrom (k + length ?url) ?b = []"
  proof (rule collectFrom_none, intro allI impI)
    fix j assume j: "k + length ?url \<le> j"
    have d: "drop j ?b = drop (j - (k + length ?url)) post"
      using j by (simp add: k add.assoc)
    show "urlAt (drop j ?b) = None"
    proof (cases "urlAt (drop j ?b)")
      case (Some u)
      from urlAt_startsWith[OF this] have "startsWith (drop (j - (k + length ?url)) post) asanaPrefix"
        by (simp only: d)
      from startsWith_includes[OF this] assms(3) show ?thesis by simp
    qed simp
  qed
  have "\<not> length ?b \<le> k" using assms(4) by (simp add: k)
  with ua after show ?case by (subst collectFrom.simps) simp
next
  case (Suc n)
  let ?url = "asanaPrefix @ tail"
  let ?b = "pre @ ?url @ post"
  from Suc.hyps(2) have k: "k < length pre" by simp
  have "\<not> startsWith (drop k (pre @ asanaPrefix @ (tail @ post))) asanaPrefix"
    by (rule no_early_prefix[OF assms(1) k])
  then have "urlAt (drop k ?b) = None"
    using urlAt_startsWith[of "drop k ?b"] by (cases "urlAt (drop k ?b)") auto
  moreover have "collectFrom (Suc k) ?b = [?url]"
    using Suc.hyps(1)[of "Suc k"] Suc.hyps(2) k by simp
  moreover have "\<not> length ?b \<le> k" using k by simp
  ultimately show ?case by (subst collectFrom.simps) simp
qed

lemma indexOf_first_occurrence:
  assumes "\<not> includes_str (pre @ ''https://app.asana.com'') asanaPrefix"
  shows "indexOf (pre @ (asanaPrefix @ tail) @ post) (asanaPrefix @ tail) 0 = Some (length pre)"
proof -
  let ?url = "asanaPrefix @ tail"
  let ?b = "pre @ ?url @ post"
  have a: "startsWith (drop (length pre) ?b) ?url"
    by (simp add: startsWith_iff)
  have b: "\<forall>k' < length pre. \<not> startsWith (drop k' ?b) ?url"
  proof (intro allI impI)
    fix k' assume k: "k' < length pre"
    have "\<not> startsWith (drop k' (pre @ asanaPrefix @ (tail @ post))) asanaPrefix"
      by (rule no_early_prefix[OF assms k])
    then show "\<not> startsWith (drop k' ?b) ?url"
      using startsWith_shorter[of "drop k' ?b" asanaPrefix tail] by auto
  qed
  from indexOfFrom_first[OF a _ b, of 0] show ?thesis
    by (simp add: indexOf_def)
qed

lemma indexOf_none_after:
  assumes "\<not> includes_str post asanaPrefix" and "length pre + length (asanaPrefix @ tail) \<le> k"
  shows "indexOf (pre @ (asanaPrefix @ tail) @ post) (asanaPrefix @ tail) k = None"
proof -
  let ?url = "asanaPrefix @ tail"
  let ?b = "pre @ ?url @ post"
  let ?m = "min k (length ?b)"
  have m: "length pre + length ?url \<le> ?m" using assms(2) by simp
  have "\<forall>j \<le> length (drop ?m ?b). \<not> startsWith (drop j (drop ?m ?b)) ?url"
  proof (intro allI impI)
    fix j
    have d: "drop j (drop ?m ?b) = drop (j + ?m - (length pre + length ?url)) post"
      using m by (simp add: add.assoc)
    show "\<not> startsWith (drop j (drop ?m ?b)) ?url"
    proof
      assume "startsWith (drop j (drop ?m ?b)) ?url"
      then have "startsWith (drop (j + ?m - (length pre + length ?url)) post) asanaPrefix"
        unfolding d by (rule startsWith_shorter)
      from startsWith_includes[OF this] assms(1) show False by simp
    qed
  qed
  from indexOfFrom_absent[OF this] show ?thesis by (simp only: indexOf_def)
qed

lemma linksFrom_single_link:
  assumes "CHR ''['' \<notin> set pre" and "CHR ''('' \<notin> set post"
    and "l \<noteq> []" and "CHR '']'' \<notin> set l" and "t \<noteq> []" and "CHR '')'' \<notin> set t"
    and "k \<le> length pre"
  shows "linksFrom P k (pre @ linkText l (P @ t) @ post) = [(length pre, l, P @ t)]"
  using assms(7)
proof (induction "length pre - k" arbitrary: k)
  case 0
  let ?link = "linkText l (P @ t)"
  let ?line = "pre @ ?link @ post"
  from 0 have k: "k = length pre" by simp
  have la: "linkAt P (drop k ?line) = Some (l, P @ t)"
    using linkAt_linkText[OF assms(3,4,5,6), of P post] by (simp add: k)
  have "drop (k + length ?link) ?line = post" by (simp add: k)
  with assms(2) have "linksFrom P (k + length ?link) ?line = []"
    by (intro linksFrom_no_paren_after) simp
  moreover have "\<not> length ?line \<le> k" by (simp add: k linkText_def)
  ultimately show ?case using la k by (subst linksFrom.simps) simp
next
  case (Suc n)
  let ?link = "linkText l (P @ t)"
  let ?line = "pre @ ?link @ post"
  from Suc.hyps(2) have k: "k < length pre" by simp
  then obtain c cs where d: "drop k pre = c # cs" by (cases "drop k pre") auto
  then have "c \<in> set pre" by (metis in_set_dropD list.set_intros(1))
  with assms(1) have "c \<noteq> CHR ''[''" by auto
  moreover have "drop k ?line = c # cs @ ?link @ post" using k d by simp
  ultimately have "linkAt P (drop k ?line) = None" by (simp add: linkAt_def)
  moreover have "linksFrom P (Suc k) ?line = [(length pre, l, P @ t)]"
    using Suc.hyps(1)[of "Suc k"] Suc.hyps(2) k by simp
  moreover have "\<not> length ?line \<le> k" using k by simp
  ultimately show ?case by (subst linksFrom.simps) simp
qed

subsection \<open>A plain URL between plain text\<close>

text \<open>
  A body of one line: a resolved URL with text before and after it that holds no
  parenthesis, no opening bracket before the URL and no other Asana URL. The plain-URL
  loop splices \<^verbatim>\<open>[safeTitle](url)\<close> in by concatenation, and both link patterns of the
  source find in the new line exactly that link.
\<close>

lemma plain_url_single_link:
  assumes "CHR ''['' \<in> set t \<or> CHR '']'' \<in> set t"
    and "tail \<noteq> []" and "list_all isUrlChar tail" and "url = asanaPrefix @ tail"
    and "lookupOf url = Some g" and "fetchTaskTitle g = Some t"
    and "list_all (\<lambda>c. c \<noteq> CHR ''('' \<and> c \<noteq> CHR ''['' \<and> c \<noteq> CHR 0x0A) pre"
    and "\<not> includes_str (pre @ ''https://app.asana.com'') asanaPrefix"
    and "list_all (\<lambda>c. c \<noteq> CHR ''('' \<and> c \<noteq> CHR 0x0A) post"
    and "post = [] \<or> \<not> isUrlChar (hd post)"
    and "\<not> includes_str post asanaPrefix"
  shows "sanitizeTitleForMarkdown t
           = map (\<lambda>c. if c = CHR ''['' then CHR ''('' else if c = CHR '']'' then CHR '')'' else c) t
         \<and> CHR ''['' \<notin> set (sanitizeTitleForMarkdown t)
         \<and> CHR '']'' \<notin> set (sanitizeTitleForMarkdown t)
         \<and> transformPRBody settled (pre @ url @ post) fetchTaskTitle
             = Some (\<lparr>body = pre @ linkText (sanitizeTitleForMarkdown t) url @ post,
                       changesApplied = True, updatedCount = 1\<rparr>, [g])
         \<and> linksFrom [] 0 (pre @ linkText (sanitizeTitleForMarkdown t) url @ post)
             = [(length pre, sanitizeTitleForMarkdown t, url)]
         \<and> linksFrom asanaPrefix 0 (pre @ linkText (sanitizeTitleForMarkdown t) url @ post)
             = [(length pre, sanitizeTitleForMarkdown t, url)]
         \<and> findMarkdownLinkIndices (pre @ linkText (sanitizeTitleForMarkdown t) url @ post)
             = [\<lparr>start = length pre,
                 end' = length pre + length (linkText (sanitizeTitleForMarkdown t) url)\<rparr>]"
proof -
  let ?safe = "sanitizeTitleForMarkdown t"
  let ?info = "\<lparr>id' = g, title = t, safeTitle = ?safe\<rparr>"
  let ?b = "pre @ url @ post"
  let ?new = "pre @ linkText ?safe url @ post"
  from assms(1) have "t \<noteq> []" by auto
  then have sne: "?safe \<noteq> []" by (simp add: sanitizeTitleForMarkdown_map)
  have nb: "CHR '']'' \<notin> set ?safe" by (rule sanitizeTitleForMarkdown_no_brackets)
  have une: "url \<noteq> []" by (simp add: assms(4) asanaPrefix_def)
  have np: "CHR ''('' \<notin> set url" and ncp: "CHR '')'' \<notin> set url" and nlf: "CHR 0x0A \<notin> set url"
    and ntp: "CHR '')'' \<notin> set tail"
    unfolding assms(4) using url_chars[OF assms(3)] by auto
  have pre: "CHR ''('' \<notin> set pre" "CHR ''['' \<notin> set pre" "CHR 0x0A \<notin> set pre"
    using assms(7) by (auto simp: list_all_iff)
  have post: "CHR ''('' \<notin> set post" "CHR 0x0A \<notin> set post"
    using assms(9) by (auto simp: list_all_iff)
  have urls: "collectAllAsanaUrls ?b = [url]"
    unfolding collectAllAsanaUrls_def assms(4)
    by (rule collectFrom_single[OF assms(8,10,11,2,3)]) simp
  have res: "resolveUrl fetchTaskTitle url = Some (url, ?info)"
    by (simp add: resolveUrl_def assms(5,6))
  have tmap: "buildTaskInfoMap settled fetchTaskTitle (uniqueInOrder (collectAllAsanaUrls ?b))
                = [(url, ?info)]"
    by (simp add: buildTaskInfoMap_def urls uniqueInOrder_def res)
  have calls: "List.map_filter lookupOf (uniqueInOrder (collectAllAsanaUrls ?b)) = [g]"
    by (simp add: urls uniqueInOrder_def assms(5))
  have bp: "CHR ''('' \<notin> set ?b" using pre(1) post(1) np by simp
  have blf: "CHR 0x0A \<notin> set ?b" using pre(3) post(2) nlf by simp
  have i0: "indexOf ?b url 0 = Some (length pre)"
    unfolding assms(4) by (rule indexOf_first_occurrence[OF assms(8)])
  have i1: "indexOf ?b url (length pre + length (linkText ?safe url)) = None"
    unfolding assms(4)
    by (rule indexOf_none_after[OF assms(11)]) (simp add: linkText_def)
  have "unfurlOccurrences ?b [] url ?info (length pre + length (linkText ?safe url)) (?new, 1)
          = Some (?new, 1)"
    using une i1 by (subst unfurlOccurrences.simps) simp
  then have uo: "unfurlOccurrences ?b [] url ?info 0 (?b, 0) = Some (?new, 1)"
    using une i0 by (subst unfurlOccurrences.simps) simp
  have pl: "processLine [(url, ?info)] ?b 0 = Some (?new, 1)"
    using uo by (simp add: processLine_def linksFrom_no_paren[OF bp] findMarkdownLinkIndices_def)
  have pls: "processLines [(url, ?info)] (splitOn (CHR 0x0A) ?b) 0 = Some ([?new], 1)"
    by (simp add: splitOn_no_sep[OF blf] pl)
  have tr: "transformPRBody settled ?b fetchTaskTitle
             = Some (\<lparr>body = ?new, changesApplied = True, updatedCount = 1\<rparr>, [g])"
    using une by (simp add: transformPRBody_def tmap calls pls)
  have l1: "linksFrom [] 0 ?new = [(length pre, ?safe, url)]"
    using linksFrom_single_link[OF pre(2) post(1) sne nb une ncp, of 0 "[]"] by simp
  have l2: "linksFrom asanaPrefix 0 ?new = [(length pre, ?safe, url)]"
    unfolding assms(4)
    by (rule linksFrom_single_link[OF pre(2) post(1) sne nb assms(2) ntp]) simp
  have l3: "findMarkdownLinkIndices ?new
             = [\<lparr>start = length pre, end' = length pre + length (linkText ?safe url)\<rparr>]"
    by (simp add: findMarkdownLinkIndices_def l1)
  from sanitizeTitleForMarkdown_map[of t] sanitizeTitleForMarkdown_no_brackets[of t] tr l1 l2 l3
  show ?thesis by blast
qed

lemma plain_url_single_link_example:
  "transformPRBody (\<lambda>url. 0) ''Complex task: https://app.asana.com/0/123456/111111 now''
       (\<lambda>g. if g = ''111111'' then Some ''Title with [brackets]'' else None)
     = Some (\<lparr>body = ''Complex task: [Title with (brackets)](https://app.asana.com/0/123456/111111) now'',
               changesApplied = True, updatedCount = 1\<rparr>, [''111111''])
   \<and> linksFrom [] 0 ''Complex task: [Title with (brackets)](https://app.asana.com/0/123456/111111) now''
     = [(14, ''Title with (brackets)'', ''https://app.asana.com/0/123456/111111'')]
   \<and> sanitizeTitleForMarkdown ''Title with [brackets]'' = ''Title with (brackets)''"
proof -
  have l: "lookupOf ''https://app.asana.com/0/123456/111111'' = Some ''111111''"
    by code_simp
  have c: "list_all isUrlChar ''0/123456/111111''"
    by code_simp
  have s: "sanitizeTitleForMarkdown ''Title with [brackets]'' = ''Title with (brackets)''"
    by code_simp
  have u: "''https://app.asana.com/0/123456/111111'' = asanaPrefix @ ''0/123456/111111''"
    by (simp add: asanaPrefix_def)
  have b: "CHR ''['' \<in> set ''Title with [brackets]'' \<or> CHR '']'' \<in> set ''Title with [brackets]''"
    by simp
  have f: "(\<lambda>g. if g = ''111111'' then Some ''Title with [brackets]'' else None) ''111111''
             = Some ''Title with [brackets]''" by simp
  have n: "''0/123456/111111'' \<noteq> []" by simp
  have p: "list_all (\<lambda>c. c \<noteq> CHR ''('' \<and> c \<noteq> CHR ''['' \<and> c \<noteq> CHR 0x0A) ''Complex task: ''"
    by simp
  have h1: "\<not> includes_str (''Complex task: '' @ ''https://app.asana.com'') asanaPrefix"
    by code_simp
  have q: "list_all (\<lambda>c. c \<noteq> CHR ''('' \<and> c \<noteq> CHR 0x0A) '' now''"
    by simp
  have h2: "'' now'' = [] \<or> \<not> isUrlChar (hd '' now'')"
    by (simp add: isUrlChar_def isSpace_def)
  have h3: "\<not> includes_str '' now'' asanaPrefix"
    by code_simp
  from plain_url_single_link[where settled = "\<lambda>url. 0"
      and fetchTaskTitle = "\<lambda>g. if g = ''111111'' then Some ''Title with [brackets]'' else None",
      OF b n c u l f p h1 q h2 h3] s
  show ?thesis by (simp add: linkText_def)
qed

section \<open>The tests of the repository, run on the model\<close>

text \<open>
  The cases of the test file of transformPRBody with short bodies. The mock answers by
  the order of the calls; here the capability answers by identifier.
\<close>

lemma test_plain_url:
  "transformPRBody (\<lambda>url. 0) ''Check this task: https://app.asana.com/0/123456/789012''
     (\<lambda>g. if g = ''789012'' then Some ''Task Title'' else None)
   = Some (\<lparr>body = ''Check this task: [Task Title](https://app.asana.com/0/123456/789012)'',
             changesApplied = True, updatedCount = 1\<rparr>, [''789012''])"
  by code_simp

lemma test_update_existing_link:
  "transformPRBody (\<lambda>url. 0) ''Check this task: [Old Title](https://app.asana.com/0/123456/789012)''
     (\<lambda>g. if g = ''789012'' then Some ''Updated Task Title'' else None)
   = Some (\<lparr>body = ''Check this task: [Updated Task Title](https://app.asana.com/0/123456/789012)'',
             changesApplied = True, updatedCount = 1\<rparr>, [''789012''])"
  by code_simp

lemma test_multiple_urls:
  "transformPRBody (\<lambda>url. 0)
     (''First task: https://app.asana.com/0/123456/111111'' @ [CHR 0x0A]
        @ ''Second task: https://app.asana.com/0/123456/222222'')
     (\<lambda>g. if g = ''111111'' then Some ''Task 1'' else if g = ''222222'' then Some ''Task 2'' else None)
   = Some (\<lparr>body = ''First task: [Task 1](https://app.asana.com/0/123456/111111)'' @ [CHR 0x0A]
        @ ''Second task: [Task 2](https://app.asana.com/0/123456/222222)'',
             changesApplied = True, updatedCount = 2\<rparr>, [''111111'', ''222222''])"
  by code_simp

lemma test_mixed:
  "transformPRBody (\<lambda>url. 0)
     (''First task: https://app.asana.com/0/123456/111111'' @ [CHR 0x0A]
        @ ''Second task: [Old Title](https://app.asana.com/0/123456/222222)'')
     (\<lambda>g. if g = ''111111'' then Some ''Task 1'' else if g = ''222222'' then Some ''Task 2'' else None)
   = Some (\<lparr>body = ''First task: [Task 1](https://app.asana.com/0/123456/111111)'' @ [CHR 0x0A]
        @ ''Second task: [Task 2](https://app.asana.com/0/123456/222222)'',
             changesApplied = True, updatedCount = 2\<rparr>, [''111111'', ''222222''])"
  by code_simp

lemma test_fetch_failure:
  "transformPRBody (\<lambda>url. 0) ''Failed task: https://app.asana.com/0/123456/111111'' (\<lambda>g. None)
   = Some (\<lparr>body = ''Failed task: https://app.asana.com/0/123456/111111'',
             changesApplied = False, updatedCount = 0\<rparr>, [''111111''])"
  by code_simp

lemma test_brackets:
  "transformPRBody (\<lambda>url. 0) ''Complex task: https://app.asana.com/0/123456/111111''
     (\<lambda>g. if g = ''111111'' then Some ''Title with [brackets]'' else None)
   = Some (\<lparr>body = ''Complex task: [Title with (brackets)](https://app.asana.com/0/123456/111111)'',
             changesApplied = True, updatedCount = 1\<rparr>, [''111111''])"
  by code_simp

lemma test_same_title:
  "transformPRBody (\<lambda>url. 0) ''Check this task: [Task Title](https://app.asana.com/0/123456/789012)''
     (\<lambda>g. if g = ''789012'' then Some ''Task Title'' else None)
   = Some (\<lparr>body = ''Check this task: [Task Title](https://app.asana.com/0/123456/789012)'',
             changesApplied = True, updatedCount = 1\<rparr>, [''789012''])"
  by code_simp

section \<open>The claims\<close>

text \<open>
  C9. For the empty body the transformer returns the empty body with
  \<open>changesApplied = False\<close> and \<open>updatedCount = 0\<close>, and \<open>fetchTaskTitle\<close> is not called:
  the list of calls is empty.
\<close>

theorem transformPRBody_empty_body:
  "transformPRBody settled [] fetchTaskTitle
     = Some (\<lparr>body = [], changesApplied = False, updatedCount = 0\<rparr>, [])"
  by (simp add: transformPRBody_def)

text \<open>
  C8. A body that is not empty and in which no URL got a title (the extractor found no
  single identifier in it, or its lookup failed) comes back as it is, with
  \<open>changesApplied = False\<close> and \<open>updatedCount = 0\<close>. A body in which the Asana prefix
  does not occur at all is such a body.
\<close>

theorem transformPRBody_nothing_resolved:
  assumes "body0 \<noteq> []"
    and "\<not> includes_str body0 asanaPrefix
         \<or> (\<forall>url \<in> set (collectAllAsanaUrls body0). resolveUrl fetchTaskTitle url = None)"
  shows "map_option fst (transformPRBody settled body0 fetchTaskTitle)
           = Some \<lparr>body = body0, changesApplied = False, updatedCount = 0\<rparr>"
proof -
  have "\<forall>url \<in> set (collectAllAsanaUrls body0). resolveUrl fetchTaskTitle url = None"
    using assms(2) collectAllAsanaUrls_no_prefix[of body0] by auto
  then have "buildTaskInfoMap settled fetchTaskTitle (uniqueInOrder (collectAllAsanaUrls body0)) = []"
    by (intro buildTaskInfoMap_empty) (simp add: set_uniqueInOrder)
  with assms(1) show ?thesis
    by (simp add: transformPRBody_def)
qed

theorem transformPRBody_nothing_resolved_witness:
  "map_option fst (transformPRBody (\<lambda>url. 0) ''Failed task: https://app.asana.com/0/123456/111111''
       (\<lambda>g. None))
     = Some \<lparr>body = ''Failed task: https://app.asana.com/0/123456/111111'',
              changesApplied = False, updatedCount = 0\<rparr>
   \<and> collectAllAsanaUrls ''Failed task: https://app.asana.com/0/123456/111111''
     = [''https://app.asana.com/0/123456/111111'']
   \<and> lookupOf ''https://app.asana.com/0/123456/111111'' = Some ''111111''"
proof -
  have u: "collectAllAsanaUrls ''Failed task: https://app.asana.com/0/123456/111111''
             = [''https://app.asana.com/0/123456/111111'']"
    by code_simp
  have l: "lookupOf ''https://app.asana.com/0/123456/111111'' = Some ''111111''"
    by code_simp
  have h: "\<not> includes_str ''Failed task: https://app.asana.com/0/123456/111111'' asanaPrefix
      \<or> (\<forall>url \<in> set (collectAllAsanaUrls ''Failed task: https://app.asana.com/0/123456/111111'').
            resolveUrl (\<lambda>g. None) url = None)"
    by (simp add: u resolveUrl_def l)
  have ne: "''Failed task: https://app.asana.com/0/123456/111111'' \<noteq> []" by simp
  from transformPRBody_nothing_resolved[OF ne h, of "\<lambda>url. 0"] u l show ?thesis by simp
qed

text \<open>
  C4. getAsanaTaskGIDsFromText returns identifiers without repetition and in ascending
  lexicographic order of the strings; the identifiers are those the lines of the text
  contribute, every line (the text is split at carriage return plus line feed and at
  line feed) at most one, and what a line contributes is the capture of the first
  pattern that matches it, in the order of the source. Every identifier is a run of
  ASCII digits that is not empty.
\<close>

theorem getAsanaTaskGIDsFromText_sorted_unique:
  "distinct (getAsanaTaskGIDsFromText text)
   \<and> sorted (getAsanaTaskGIDsFromText text)
   \<and> set (getAsanaTaskGIDsFromText text)
       = {g. \<exists>line \<in> set (textLines text). lineTaskGID line = Some g}
   \<and> length (getAsanaTaskGIDsFromText text) \<le> length (textLines text)
   \<and> (\<forall>g \<in> set (getAsanaTaskGIDsFromText text). g \<noteq> [] \<and> list_all isDigit g)
   \<and> lineTaskGID line
       = firstSome [matchTaskItem line, matchProjectTask line, matchWorkspaceProjectTask line,
                    matchV0 line, matchInboxItem line]"
proof -
  let ?f = "\<lambda>line. case lineTaskGID line of None \<Rightarrow> [] | Some g \<Rightarrow> [g]"
  let ?xs = "concat (map ?f (textLines text))"
  have r: "getAsanaTaskGIDsFromText text = sort (uniqueInOrder (sort ?xs))"
    by (simp add: getAsanaTaskGIDsFromText_def)
  have d: "distinct (getAsanaTaskGIDsFromText text)"
    unfolding r by (simp add: distinct_uniqueInOrder)
  have s: "sorted (getAsanaTaskGIDsFromText text)"
    unfolding r by simp
  have m: "set (getAsanaTaskGIDsFromText text)
             = {g. \<exists>line \<in> set (textLines text). lineTaskGID line = Some g}"
    unfolding r by (auto simp: set_uniqueInOrder split: option.splits)
  have "length (getAsanaTaskGIDsFromText text) \<le> length ?xs"
    unfolding r using length_uniqueInOrder_le[of "sort ?xs"] by simp
  also have "\<dots> \<le> length (textLines text)"
    by (rule length_concat_le) (simp split: option.splits)
  finally have l: "length (getAsanaTaskGIDsFromText text) \<le> length (textLines text)" .
  have g: "\<forall>g \<in> set (getAsanaTaskGIDsFromText text). g \<noteq> [] \<and> list_all isDigit g"
    unfolding m using lineTaskGID_digits by blast
  from d s m l g lineTaskGID_firstSome[of line] show ?thesis by blast
qed

theorem getAsanaTaskGIDsFromText_sorted_unique_witness:
  "getAsanaTaskGIDsFromText
     (''https://app.asana.com/0/1/20'' @ [CHR 0x0D, CHR 0x0A] @ ''https://app.asana.com/0/1/100''
        @ [CHR 0x0A] @ ''no link'' @ [CHR 0x0A] @ ''https://app.asana.com/0/1/20'')
     = [''100'', ''20'']
   \<and> sorted [''100'', ''20'']
   \<and> distinct [''100'', ''20'']
   \<and> length (textLines
     (''https://app.asana.com/0/1/20'' @ [CHR 0x0D, CHR 0x0A] @ ''https://app.asana.com/0/1/100''
        @ [CHR 0x0A] @ ''no link'' @ [CHR 0x0A] @ ''https://app.asana.com/0/1/20'')) = 4"
proof -
  let ?t = "''https://app.asana.com/0/1/20'' @ [CHR 0x0D, CHR 0x0A] @ ''https://app.asana.com/0/1/100''
        @ [CHR 0x0A] @ ''no link'' @ [CHR 0x0A] @ ''https://app.asana.com/0/1/20''"
  have e: "getAsanaTaskGIDsFromText ?t = [''100'', ''20'']"
    by code_simp
  have n: "length (textLines ?t) = 4"
    by code_simp
  from getAsanaTaskGIDsFromText_sorted_unique[of ?t "[]"]
  have "distinct (getAsanaTaskGIDsFromText ?t) \<and> sorted (getAsanaTaskGIDsFromText ?t)"
    by blast
  with e n show ?thesis by simp
qed

text \<open>
  C1. Every plain occurrence of a resolved URL becomes \<^verbatim>\<open>[safeTitle](url)\<close>, several
  occurrences of one URL each, with a single lookup for the URL. The instance of the
  claim holds (first equation). With the URL twice on one line only the first occurrence
  is converted (second equation): the loop searches \<open>updatedLine\<close>, which the loop never
  changes, from an index that counts the length of the new link. With two URLs on one
  line the conversion of the first is lost (third equation): every new line is built
  from \<open>updatedLine\<close>, so the last replacement overwrites the ones before it. The
  lookup is called once for each URL in all three runs.
\<close>

theorem transformPRBody_same_line_occurrences:
  "transformPRBody (\<lambda>url. 0) ''See https://app.asana.com/0/123456/789012''
       (\<lambda>g. if g = ''789012'' then Some ''Fix bug'' else None)
     = Some (\<lparr>body = ''See [Fix bug](https://app.asana.com/0/123456/789012)'',
               changesApplied = True, updatedCount = 1\<rparr>, [''789012''])
   \<and> transformPRBody (\<lambda>url. 0) ''https://app.asana.com/0/1/2 https://app.asana.com/0/1/2''
       (\<lambda>g. if g = ''2'' then Some ''T'' else None)
     = Some (\<lparr>body = ''[T](https://app.asana.com/0/1/2) https://app.asana.com/0/1/2'',
               changesApplied = True, updatedCount = 1\<rparr>, [''2''])
   \<and> transformPRBody (\<lambda>url. 0) ''https://app.asana.com/0/1/2 and https://app.asana.com/0/1/3''
       (\<lambda>g. if g = ''2'' then Some ''T'' else if g = ''3'' then Some ''S'' else None)
     = Some (\<lparr>body = ''https://app.asana.com/0/1/2 and [S](https://app.asana.com/0/1/3)'',
               changesApplied = True, updatedCount = 2\<rparr>, [''2'', ''3''])"
  by code_simp

text \<open>
  C2. Running the transformer twice gives the body of the first run again. Here the
  first run converts one of two occurrences on a line (see C1), and the second run,
  given the body of the first, converts the other: the two bodies differ.
\<close>

theorem transformPRBody_second_run_differs:
  "transformPRBody (\<lambda>url. 0) ''https://app.asana.com/0/1/2 https://app.asana.com/0/1/2''
       (\<lambda>g. if g = ''2'' then Some ''T'' else None)
     = Some (\<lparr>body = ''[T](https://app.asana.com/0/1/2) https://app.asana.com/0/1/2'',
               changesApplied = True, updatedCount = 1\<rparr>, [''2''])
   \<and> transformPRBody (\<lambda>url. 0) ''[T](https://app.asana.com/0/1/2) https://app.asana.com/0/1/2''
       (\<lambda>g. if g = ''2'' then Some ''T'' else None)
     = Some (\<lparr>body = ''[T](https://app.asana.com/0/1/2) [T](https://app.asana.com/0/1/2)'',
               changesApplied = True, updatedCount = 2\<rparr>, [''2''])"
  by code_simp

text \<open>
  C3. A lookup that fails leaves the occurrences of its URL as they are and out of the
  count. Here the lookup for the identifier \<open>23\<close> fails and that for \<open>2\<close> succeeds; the
  URL of \<open>2\<close> is a prefix of the URL of \<open>23\<close>, the loop over the occurrences finds it
  there by \<^verbatim>\<open>indexOf\<close>, and the second line is rewritten and counted.
\<close>

theorem transformPRBody_failed_lookup_rewritten:
  "transformPRBody (\<lambda>url. 0)
       (''https://app.asana.com/0/1/2'' @ [CHR 0x0A] @ ''https://app.asana.com/0/1/23'')
       (\<lambda>g. if g = ''2'' then Some ''T'' else None)
     = Some (\<lparr>body = ''[T](https://app.asana.com/0/1/2)'' @ [CHR 0x0A]
                        @ ''[T](https://app.asana.com/0/1/2)3'',
               changesApplied = True, updatedCount = 2\<rparr>, [''2'', ''23''])"
  by code_simp

text \<open>
  C5. The old V0 pattern on a line that is the Asana host followed by path segments,
  each a run of digits or one of \<^verbatim>\<open>board\<close>, \<^verbatim>\<open>search\<close>, \<^verbatim>\<open>inbox\<close>. As the claim
  states it (the last numeric segment is the identifier) it fails where that segment is
  the first one: the first group of the pattern needs a segment of its own, so
  \<^verbatim>\<open>https://app.asana.com/123\<close> and \<^verbatim>\<open>https://app.asana.com/123/board\<close> give no
  identifier (the last theorem of this group). Amended: when the last numeric
  segment \<open>g\<close> has at least one segment before it (and only keywords after it), no
  earlier pattern matches the line, the V0 pattern captures \<open>g\<close>, and the extractor
  returns \<open>g\<close> alone; and the V0 pattern gives nothing for any line that contains
  \<^verbatim>\<open>/task/\<close>.
\<close>

theorem matchV0_last_numeric_segment:
  assumes "pre \<noteq> []"
    and "\<forall>seg \<in> set pre. (seg \<noteq> [] \<and> list_all isDigit seg)
                            \<or> seg \<in> {''board'', ''search'', ''inbox''}"
    and "g \<noteq> []" and "list_all isDigit g"
    and "\<forall>seg \<in> set post. seg \<in> {''board'', ''search'', ''inbox''}"
    and "line = ''https://app.asana.com'' @ concat (map (\<lambda>seg. CHR ''/'' # seg) (pre @ [g] @ post))"
  shows "matchTaskItem line = None \<and> matchProjectTask line = None
         \<and> matchWorkspaceProjectTask line = None
         \<and> matchV0 line = Some g \<and> lineTaskGID line = Some g
         \<and> getAsanaTaskGIDsFromText line = [g]
         \<and> (includes_str l ''/task/'' \<longrightarrow> matchV0 l = None)"
proof -
  let ?segs = "pre @ [g] @ post"
  let ?w = "concat (map (\<lambda>seg. CHR ''/'' # seg) ?segs)"
  have valid: "\<forall>seg \<in> set ?segs. (seg \<noteq> [] \<and> list_all isDigit seg)
                            \<or> seg \<in> {''board'', ''search'', ''inbox''}"
    using assms(2,3,4,5) by auto
  have nt: "\<not> includes_str line ''/task/''"
    unfolding assms(6) by (rule v0_line_no_task[OF valid])
  have ni: "\<not> includes_str line ''/item/''"
    unfolding assms(6) by (rule v0_line_no_item[OF valid])
  have m1: "matchTaskItem line = None"
    using matchTaskItem_Some_includes[of line] nt ni by (cases "matchTaskItem line") auto
  have m2: "matchProjectTask line = None"
    using matchProjectTask_Some_includes[of line] nt by (cases "matchProjectTask line") auto
  have m3: "matchWorkspaceProjectTask line = None"
    using matchWorkspaceProjectTask_Some_includes[of line] nt
    by (cases "matchWorkspaceProjectTask line") auto
  have p: "pathSegments ?w = Some g"
    by (rule pathSegments_last_numeric[OF assms(1-5)])
  have "search (\<lambda>s. Option.bind (asanaHost s) pathSegments) (''https://app.asana.com'' @ ?w)
          = Some g"
    using asanaHost_literal[of ?w] p by simp
  then have "search (\<lambda>s. Option.bind (asanaHost s) pathSegments) line = Some g"
    by (simp only: assms(6))
  then have m4: "matchV0 line = Some g"
    using nt by (simp add: matchV0_def)
  have m5: "lineTaskGID line = Some g"
    by (simp add: lineTaskGID_def m1 m2 m3 m4)
  have seg: "CHR 0x0D \<notin> set seg \<and> CHR 0x0A \<notin> set seg" if "seg \<in> set ?segs" for seg
  proof -
    from valid that have "(seg \<noteq> [] \<and> list_all isDigit seg)
        \<or> seg \<in> {''board'', ''search'', ''inbox''}"
      by blast
    then show ?thesis
    proof
      assume "seg \<noteq> [] \<and> list_all isDigit seg"
      then have "\<forall>c \<in> set seg. isDigit c" by (simp add: list_all_iff)
      moreover have "\<not> isDigit (CHR 0x0D)" "\<not> isDigit (CHR 0x0A)"
        by (simp_all add: isDigit_def)
      ultimately show ?thesis by blast
    next
      assume "seg \<in> {''board'', ''search'', ''inbox''}"
      then show ?thesis by auto
    qed
  qed
  have "CHR 0x0D \<notin> set ?w \<and> CHR 0x0A \<notin> set ?w"
    using seg by (induction ?segs) auto
  then have "CHR 0x0D \<notin> set line" and "CHR 0x0A \<notin> set line"
    by (simp_all add: assms(6))
  then have "textLines line = [line]" by (rule textLines_single)
  then have m6: "getAsanaTaskGIDsFromText line = [g]"
    by (simp add: getAsanaTaskGIDsFromText_def m5 uniqueInOrder_def)
  have m7: "includes_str l ''/task/'' \<longrightarrow> matchV0 l = None"
    by (simp add: matchV0_def split: option.splits)
  from m1 m2 m3 m4 m5 m6 m7 show ?thesis by blast
qed

theorem matchV0_last_numeric_segment_witness:
  "lineTaskGID ''https://app.asana.com/0/123/board/456/inbox'' = Some ''456''
   \<and> getAsanaTaskGIDsFromText ''https://app.asana.com/0/123/board/456/inbox'' = [''456'']
   \<and> matchTaskItem ''https://app.asana.com/0/123/board/456/inbox'' = None
   \<and> includes_str ''https://app.asana.com/0/1/task/2'' ''/task/''
   \<and> matchV0 ''https://app.asana.com/0/1/task/2'' = None"
proof -
  have i: "includes_str ''https://app.asana.com/0/1/task/2'' ''/task/''"
    by code_simp
  have d: "list_all isDigit ''456''" "list_all isDigit ''0''" "list_all isDigit ''123''"
    by (simp_all add: isDigit_def)
  have "lineTaskGID ''https://app.asana.com/0/123/board/456/inbox'' = Some ''456''
     \<and> getAsanaTaskGIDsFromText ''https://app.asana.com/0/123/board/456/inbox'' = [''456'']
     \<and> matchTaskItem ''https://app.asana.com/0/123/board/456/inbox'' = None
     \<and> (includes_str ''https://app.asana.com/0/1/task/2'' ''/task/''
          \<longrightarrow> matchV0 ''https://app.asana.com/0/1/task/2'' = None)"
    using matchV0_last_numeric_segment[of "[''0'', ''123'', ''board'']" "''456''" "[''inbox'']"
        "''https://app.asana.com/0/123/board/456/inbox''" "''https://app.asana.com/0/1/task/2''"] d
    by simp
  with i show ?thesis by simp
qed

theorem matchV0_first_segment_counterexample:
  "matchTaskItem ''https://app.asana.com/123'' = None
   \<and> matchProjectTask ''https://app.asana.com/123'' = None
   \<and> matchWorkspaceProjectTask ''https://app.asana.com/123'' = None
   \<and> lineTaskGID ''https://app.asana.com/123'' \<noteq> Some ''123''
   \<and> getAsanaTaskGIDsFromText ''https://app.asana.com/123'' = []
   \<and> matchTaskItem ''https://app.asana.com/123/board'' = None
   \<and> matchProjectTask ''https://app.asana.com/123/board'' = None
   \<and> matchWorkspaceProjectTask ''https://app.asana.com/123/board'' = None
   \<and> lineTaskGID ''https://app.asana.com/123/board'' \<noteq> Some ''123''
   \<and> getAsanaTaskGIDsFromText ''https://app.asana.com/123/board'' = []"
  by code_simp

text \<open>
  C7. A title with square brackets is embedded as a label with \<^verbatim>\<open>[\<close> replaced by \<^verbatim>\<open>(\<close>
  and \<^verbatim>\<open>]\<close> by \<^verbatim>\<open>)\<close>, and the line stays a single markdown link. The label is written
  in two places. The plain-URL loop concatenates \<^verbatim>\<open>before + newLink + after\<close>; for the
  title \<^verbatim>\<open>[$&]\<close> it gives the label \<^verbatim>\<open>($&)\<close> (fourth equation). The loop over the existing
  links calls \<^verbatim>\<open>line.replace(fullMatch, newLink)\<close>, which reads \<^verbatim>\<open>$&\<close> in \<open>newLink\<close> as
  the matched text: for the body \<^verbatim>\<open>[Old](url)\<close> and the same title the old link is
  copied into the label, the URL that follows is then taken for a plain one and
  converted, and the count is 2 (second equation). In the line that results the pattern
  of the source finds two links, the first with a label that contains \<^verbatim>\<open>[\<close> (third
  equation).
\<close>

theorem transformPRBody_replacement_pattern_in_title:
  "sanitizeTitleForMarkdown ''[$&]'' = ''($&)''
   \<and> transformPRBody (\<lambda>url. 0) ''[Old](https://app.asana.com/0/1/2)''
       (\<lambda>g. if g = ''2'' then Some ''[$&]'' else None)
     = Some (\<lparr>body = ''[([Old](https://app.asana.com/0/1/2))]([($&)](https://app.asana.com/0/1/2))'',
               changesApplied = True, updatedCount = 2\<rparr>, [''2''])
   \<and> linksFrom asanaPrefix 0
         ''[([Old](https://app.asana.com/0/1/2))]([($&)](https://app.asana.com/0/1/2))''
       = [(0, ''([Old'', ''https://app.asana.com/0/1/2''),
          (39, ''($&)'', ''https://app.asana.com/0/1/2'')]
   \<and> transformPRBody (\<lambda>url. 0) ''See https://app.asana.com/0/1/2''
       (\<lambda>g. if g = ''2'' then Some ''[$&]'' else None)
     = Some (\<lparr>body = ''See [($&)](https://app.asana.com/0/1/2)'',
               changesApplied = True, updatedCount = 1\<rparr>, [''2''])"
  by code_simp




text \<open>
  C6. An existing markdown link whose target is a resolved URL and whose label is the
  fetched title, or contains \<^verbatim>\<open>[\<close>, is counted and its line is not rewritten. The
  instance of the claim holds (first equation). A label with nested brackets is not
  kept: the label group of both link patterns takes no \<^verbatim>\<open>]\<close>, so
  for \<^verbatim>\<open>[Title with [brackets]](url)\<close> neither pattern finds a link (third and fourth
  equation), the URL is taken for a plain one and a second link is written inside the
  first (second equation). The two patterns also differ on the target: in
  \<^verbatim>\<open>[x](y [a) b](url)\<close> the first loop finds the link with the label \<^verbatim>\<open>a) b\<close> and counts
  it, the ranges of \<open>findMarkdownLinkIndices\<close> hold only \<^verbatim>\<open>[x](y [a)\<close>, and the URL is
  converted and counted once more (last three equations).
\<close>

theorem transformPRBody_nested_label_rewritten:
  "transformPRBody (\<lambda>url. 0) ''[Old](https://app.asana.com/0/1/2)''
       (\<lambda>g. if g = ''2'' then Some ''Old'' else None)
     = Some (\<lparr>body = ''[Old](https://app.asana.com/0/1/2)'', changesApplied = True,
               updatedCount = 1\<rparr>, [''2''])
   \<and> transformPRBody (\<lambda>url. 0) ''[Title with [brackets]](https://app.asana.com/0/1/2)''
       (\<lambda>g. if g = ''2'' then Some ''Title with [brackets]'' else None)
     = Some (\<lparr>body = ''[Title with [brackets]]([Title with (brackets)](https://app.asana.com/0/1/2))'',
               changesApplied = True, updatedCount = 1\<rparr>, [''2''])
   \<and> linksFrom asanaPrefix 0 ''[Title with [brackets]](https://app.asana.com/0/1/2)'' = []
   \<and> findMarkdownLinkIndices ''[Title with [brackets]](https://app.asana.com/0/1/2)'' = []
   \<and> transformPRBody (\<lambda>url. 0) ''[x](y [a) b](https://app.asana.com/0/1/2)''
       (\<lambda>g. if g = ''2'' then Some ''a) b'' else None)
     = Some (\<lparr>body = ''[x](y [a) b]([a) b](https://app.asana.com/0/1/2))'',
               changesApplied = True, updatedCount = 2\<rparr>, [''2''])
   \<and> linksFrom asanaPrefix 0 ''[x](y [a) b](https://app.asana.com/0/1/2)''
       = [(6, ''a) b'', ''https://app.asana.com/0/1/2'')]
   \<and> findMarkdownLinkIndices ''[x](y [a) b](https://app.asana.com/0/1/2)''
       = [\<lparr>start = 0, end' = 9\<rparr>]"
  by code_simp

end
